theory Spec2Isabelle
  imports Main "HOL-Library.Sublist"
begin

section \<open>Values\<close>

text \<open>
  The values that callers and workers hand to the coordinator are the primitive ones;
  numbers are the integers of magnitude below \<open>10\<^sup>2\<^sup>1\<close>, which print in plain
  decimal. Keys are property names of the coordinator's plain-object tables, so they
  are strings.
\<close>

type_synonym key = string

datatype jsval = JUndefined | JNull | JBool bool | JNum int | JStr string

text \<open>The truthiness test of \<^verbatim>\<open>if (x)\<close>, \<^verbatim>\<open>!x\<close> and \<^verbatim>\<open>x ? a : b\<close>.\<close>

fun truthy :: "jsval \<Rightarrow> bool" where
  "truthy JUndefined = False"
| "truthy JNull = False"
| "truthy (JBool b) = b"
| "truthy (JNum n) = (n \<noteq> 0)"
| "truthy (JStr s) = (s \<noteq> [])"

definition digit :: "nat \<Rightarrow> char" where
  "digit d = char_of (48 + d)"

fun dec :: "nat \<Rightarrow> string" where
  "dec n = (if n < 10 then [digit n] else dec (n div 10) @ [digit (n mod 10)])"

declare dec.simps [simp del]

text \<open>The string a value becomes inside a template literal.\<close>

fun js_string :: "jsval \<Rightarrow> string" where
  "js_string JUndefined = ''undefined''"
| "js_string JNull = ''null''"
| "js_string (JBool b) = (if b then ''true'' else ''false'')"
| "js_string (JNum n) = (if n < 0 then ''-'' @ dec (nat (- n)) else dec (nat n))"
| "js_string (JStr s) = s"

text \<open>
  \<^verbatim>\<open>uuid4()\<close> comes from a library whose promise is that no two calls return the
  same string. The \<open>n\<close>-th call of a process returns \<open>uuid_text n\<close>.
\<close>

definition uuid_text :: "nat \<Rightarrow> string" where
  "uuid_text n = ''uuid-'' @ dec n"

definition OK :: jsval where
  "OK = JStr ''OK''"

text \<open>
  The tables are plain objects, so a name that a table does not own is looked up in
  \<^verbatim>\<open>Object.prototype\<close>. These are its function members with their \<^verbatim>\<open>length\<close>;
  the remaining member, \<^verbatim>\<open>__proto__\<close>, is an accessor: reading it gives
  \<^verbatim>\<open>Object.prototype\<close> itself, and assigning to it changes the prototype when the
  value is an object or \<^verbatim>\<open>null\<close> and does nothing otherwise.
\<close>

definition object_prototype_functions :: "(string \<times> nat) list" where
  "object_prototype_functions =
     [(''constructor'', 1), (''__defineGetter__'', 2), (''__defineSetter__'', 2),
      (''hasOwnProperty'', 1), (''__lookupGetter__'', 1), (''__lookupSetter__'', 1),
      (''isPrototypeOf'', 1), (''propertyIsEnumerable'', 1), (''toString'', 0),
      (''valueOf'', 0), (''toLocaleString'', 0)]"

definition member_length :: "string \<Rightarrow> nat option" where
  "member_length k = map_of object_prototype_functions k"

definition inherited :: "string \<Rightarrow> bool" where
  "inherited k \<longleftrightarrow> k = ''__proto__'' \<or> member_length k \<noteq> None"

text \<open>
  What reading a table gives: a value, or the member of \<^verbatim>\<open>Object.prototype\<close> that
  has the name read.
\<close>

datatype reading = Val jsval | Member string

section \<open>The coordinator (class Manager)\<close>

text \<open>
  A caller's callback function is known by its identity. A listener is either such a
  function, registered by \<^verbatim>\<open>listen(k, cb)\<close> in the coordinator's own process, or the
  closure that \<^verbatim>\<open>handle\<close> builds for a worker's \<^verbatim>\<open>listen\<close> request; that closure
  captures the target worker, \<^verbatim>\<open>data.id\<close>, \<^verbatim>\<open>data.uuid\<close> and \<^verbatim>\<open>data.key\<close>, and
  its first field is its own identity (every request builds a new one).
\<close>

type_synonym callback = nat

datatype listener = Local callback | Remote nat nat nat string key

datatype wstatus = Connected | Disconnected | Dead

record message =
  msg_isSharedMemoryMessage :: bool
  isNotified :: bool
  msg_id :: nat
  msg_uuid :: string
  msg_value :: reading

record request =
  isSharedMemoryMessage :: bool
  req_id :: nat
  req_method :: string
  req_uuid :: string
  req_key :: key
  req_value :: jsval

record lru_options =
  opt_max :: "nat option"
  opt_maxAge :: "nat option"

datatype lru_call = LruNew lru_options | LruGet key | LruSet key jsval

datatype log_entry = SendFailed nat | LoggedArgs "jsval list"

text \<open>
  What goes wrong: a \<^verbatim>\<open>TypeError\<close> of the language, an \<^verbatim>\<open>Error\<close> that the code
  throws with its message, a value thrown by a caller's action, and the rejection of a
  promise that has no rejection handler, which the process reports after the call that
  made the promise has returned.
\<close>

datatype js_error = TypeError | Error string | Thrown jsval | UnhandledRejection js_error

text \<open>
  What the coordinator does to the outside and to its tables, in program order:
  \<open>Stored\<close> is \<^verbatim>\<open>memory[k] = v\<close> making \<open>v\<close> the property \<open>k\<close> of the store,
  \<open>Removed\<close> is \<^verbatim>\<open>delete memory[k]\<close>,
  \<open>Called\<close> is \<^verbatim>\<open>cb(...)\<close> on the callback given to the running method,
  \<open>Granted\<close> is \<^verbatim>\<open>callback(lockId)\<close> in \<^verbatim>\<open>handleLockRequest\<close>,
  \<open>Released\<close> is \<^verbatim>\<open>delete locks[k]\<close> in \<^verbatim>\<open>releaseLock\<close>,
  \<open>Notified\<close> is a local listener called by \<^verbatim>\<open>notifyListener\<close>,
  \<open>Sent\<close> is \<^verbatim>\<open>target.send(msg)\<close> on an open channel and \<open>Logged\<close> is
  \<^verbatim>\<open>this.logger(...)\<close>. \<open>CalledMember\<close> and \<open>NotifiedMember\<close> are a callback and
  a listener called with an inherited member instead of a value.
\<close>

datatype event =
    Stored key jsval
  | Removed key
  | Called callback jsval
  | CalledMember callback string
  | Granted key callback jsval
  | Released key jsval
  | Notified callback jsval
  | NotifiedMember callback string
  | Sent nat message
  | Logged log_entry

text \<open>
  A promise as its creator leaves it: resolved with a value or with an inherited
  member, rejected, or pending. What a call gives back is an exception, a promise, or
  something without a \<^verbatim>\<open>then\<close> (\<^verbatim>\<open>undefined\<close>).
\<close>

datatype promise = Resolved jsval | ResolvedMember string | Rejected js_error | Pending

datatype call_result = Threw js_error | Returned promise | Returned_other

fun called :: "callback \<Rightarrow> reading \<Rightarrow> event" where
  "called c (Val v) = Called c v"
| "called c (Member n) = CalledMember c n"

fun notified :: "callback \<Rightarrow> reading \<Rightarrow> event" where
  "notified c (Val v) = Notified c v"
| "notified c (Member n) = NotifiedMember c n"

fun resolved :: "reading \<Rightarrow> promise" where
  "resolved (Val v) = Resolved v"
| "resolved (Member n) = ResolvedMember n"

text \<open>
  \<open>memory_bare\<close> says that the store has lost its prototype, which
  \<^verbatim>\<open>memory['__proto__'] = null\<close> brings about; the other tables never lose theirs.
\<close>

record mstate =
  memory :: "key \<rightharpoonup> jsval"
  memory_bare :: bool
  locks :: "key \<rightharpoonup> jsval"
  lockRequestQueues :: "key \<rightharpoonup> callback list"
  listeners :: "key \<rightharpoonup> listener list"
  lru_calls :: "lru_call list"
  uuid_count :: nat
  closure_count :: nat
  workers :: "nat \<Rightarrow> wstatus"
  effects :: "event list"

definition defaultLRUOptions :: lru_options where
  "defaultLRUOptions = \<lparr>opt_max = Some 10000, opt_maxAge = Some (5 * 60 * 1000)\<rparr>"

text \<open>The state the constructor leaves; no worker is online yet.\<close>

definition minit :: mstate where
  "minit = \<lparr>memory = Map.empty, memory_bare = False, locks = Map.empty,
            lockRequestQueues = Map.empty,
            listeners = Map.empty, lru_calls = [LruNew defaultLRUOptions],
            uuid_count = 0, closure_count = 0, workers = (\<lambda>w. Dead), effects = []\<rparr>"

definition emit :: "event \<Rightarrow> mstate \<Rightarrow> mstate" where
  "emit e s = s\<lparr>effects := effects s @ [e]\<rparr>"

text \<open>
  \<^verbatim>\<open>memory[k]\<close> is the store's own property, else the inherited member while the
  store has its prototype, else \<^verbatim>\<open>undefined\<close>. \<^verbatim>\<open>memory[k] = v\<close> makes an own
  property, except that \<^verbatim>\<open>__proto__\<close> goes to the inherited accessor while the store
  has its prototype. \<^verbatim>\<open>delete memory[k]\<close> removes an own property only.
\<close>

definition sm_get :: "mstate \<Rightarrow> key \<Rightarrow> reading" where
  "sm_get s k =
     (case memory s k of
        Some v \<Rightarrow> Val v
      | None \<Rightarrow> if inherited k \<and> \<not> memory_bare s then Member k else Val JUndefined)"

definition sm_set :: "key \<Rightarrow> jsval \<Rightarrow> mstate \<Rightarrow> mstate" where
  "sm_set k v s =
     (if k = ''__proto__'' \<and> \<not> memory_bare s
      then (if v = JNull then s\<lparr>memory_bare := True\<rparr> else s)
      else emit (Stored k v) (s\<lparr>memory := (memory s)(k \<mapsto> v)\<rparr>))"

definition sm_remove :: "key \<Rightarrow> mstate \<Rightarrow> mstate" where
  "sm_remove k s = emit (Removed k) (s\<lparr>memory := (memory s)(k := None)\<rparr>)"

text \<open>
  The lock table and the queues are read at their own properties: for them a key is
  taken not to be an inherited name. (At an inherited name the code finds the
  inherited member in both tables; it then grants nothing, and \<^verbatim>\<open>getLock\<close> with a
  callback raises on \<^verbatim>\<open>push\<close>.)
\<close>

definition locks_get :: "mstate \<Rightarrow> key \<Rightarrow> jsval" where
  "locks_get s k = (case locks s k of None \<Rightarrow> JUndefined | Some t \<Rightarrow> t)"

text \<open>
  \<^verbatim>\<open>lockRequestQueues[k] ?? []\<close>, and \<^verbatim>\<open>listeners[k] ?? []\<close> at a key that is not
  an inherited name. At an inherited name \<^verbatim>\<open>listeners[k]\<close> is the inherited member
  and never an array.
\<close>

definition queue_of :: "mstate \<Rightarrow> key \<Rightarrow> callback list" where
  "queue_of s k = (case lockRequestQueues s k of None \<Rightarrow> [] | Some q \<Rightarrow> q)"

definition listeners_of :: "mstate \<Rightarrow> key \<Rightarrow> listener list" where
  "listeners_of s k = (case listeners s k of None \<Rightarrow> [] | Some ls \<Rightarrow> ls)"

text \<open>
  \<^verbatim>\<open>target.send(msg, null, cb)\<close>: on an open channel the message goes out; on a closed
  one the callback gets the error and hands it to the logger.
\<close>

definition send :: "nat \<Rightarrow> message \<Rightarrow> mstate \<Rightarrow> mstate" where
  "send target msg s =
     (if workers s target = Connected then emit (Sent target msg) s
      else emit (Logged (SendFailed target)) s)"

text \<open>
  \<^verbatim>\<open>removeListener\<close> raises at an inherited name, where what it reads has no
  \<^verbatim>\<open>indexOf\<close>.
\<close>

definition removeListener :: "key \<Rightarrow> listener \<Rightarrow> mstate \<Rightarrow> js_error option \<times> mstate" where
  "removeListener k l s =
     (if inherited k then (Some TypeError, s)
      else if l \<in> set (listeners_of s k)
      then (None, s\<lparr>listeners := (listeners s)(k \<mapsto> remove1 l (listeners_of s k))\<rparr>)
      else (None, s))"

text \<open>
  A listener runs inside the executor of a promise of its own, so an exception of
  \<^verbatim>\<open>removeListener\<close> rejects that promise and goes no further.
\<close>

fun call_listener :: "listener \<Rightarrow> reading \<Rightarrow> mstate \<Rightarrow> mstate" where
  "call_listener (Local c) v s = emit (notified c v) s"
| "call_listener (Remote n target wid u k) v s =
     (if workers s target = Connected
      then send target \<lparr>msg_isSharedMemoryMessage = True, isNotified = True, msg_id = wid,
                        msg_uuid = u, msg_value = v\<rparr> s
      else if workers s target = Dead then snd (removeListener k (Remote n target wid u k) s)
      else s)"

text \<open>
  \<^verbatim>\<open>listeners.map(cb => ...)\<close> visits the indices below the length the array had when
  the call began and skips an index the array no longer has: a listener that removes
  itself shortens the very array being walked.
\<close>

fun notify_indices :: "key \<Rightarrow> nat list \<Rightarrow> mstate \<Rightarrow> mstate" where
  "notify_indices k [] s = s"
| "notify_indices k (i # is) s =
     notify_indices k is
       (if i < length (listeners_of s k)
        then call_listener (listeners_of s k ! i) (sm_get s k) s
        else s)"

text \<open>
  At an inherited name \<^verbatim>\<open>listeners?.length > 0\<close> looks at the \<^verbatim>\<open>length\<close> of the
  inherited member: a function of one parameter or more passes the test and
  \<^verbatim>\<open>listeners.map\<close> raises; the other members fail it and nothing happens.
\<close>

definition notifyListener :: "key \<Rightarrow> mstate \<Rightarrow> js_error option \<times> mstate" where
  "notifyListener k s =
     (if inherited k then
        (case member_length k of
           Some n \<Rightarrow> if 0 < n then (Some TypeError, s) else (None, s)
         | None \<Rightarrow> (None, s))
      else if 0 < length (listeners_of s k)
      then (None, notify_indices k [0 ..< length (listeners_of s k)] s)
      else (None, s))"

text \<open>
  The body shared by the two branches of \<^verbatim>\<open>set\<close> and of \<^verbatim>\<open>remove\<close>: change the
  store, then notify. In the branch for a callback an exception leaves the method; in
  the promise branch it rejects the promise.
\<close>

definition write_notify :: "key \<Rightarrow> jsval \<Rightarrow> mstate \<Rightarrow> js_error option \<times> mstate" where
  "write_notify k v s = notifyListener k (sm_set k v s)"

definition remove_notify :: "key \<Rightarrow> mstate \<Rightarrow> js_error option \<times> mstate" where
  "remove_notify k s = notifyListener k (sm_remove k s)"

definition in_promise :: "js_error option \<times> mstate \<Rightarrow> call_result \<times> mstate" where
  "in_promise r =
     (case r of
        (Some e, s) \<Rightarrow> (Returned (Rejected e), s)
      | (None, s) \<Rightarrow> (Returned (Resolved OK), s))"

definition manager_set :: "key \<Rightarrow> jsval \<Rightarrow> callback option \<Rightarrow> mstate \<Rightarrow> call_result \<times> mstate" where
  "manager_set k v cb s =
     (if k \<noteq> [] then
        (case cb of
           Some c \<Rightarrow>
             (case write_notify k v s of
                (Some e, s1) \<Rightarrow> (Threw e, s1)
              | (None, s1) \<Rightarrow> in_promise (write_notify k v (emit (Called c OK) s1)))
         | None \<Rightarrow> in_promise (write_notify k v s))
      else (Returned_other, s))"

definition manager_get :: "key \<Rightarrow> callback option \<Rightarrow> mstate \<Rightarrow> promise \<times> mstate" where
  "manager_get k cb s =
     (let s1 = (case cb of Some c \<Rightarrow> emit (called c (sm_get s k)) s | None \<Rightarrow> s)
      in (resolved (sm_get s1 k), s1))"

definition manager_remove :: "key \<Rightarrow> callback option \<Rightarrow> mstate \<Rightarrow> call_result \<times> mstate" where
  "manager_remove k cb s =
     (case cb of
        Some c \<Rightarrow>
          (case remove_notify k s of
             (Some e, s1) \<Rightarrow> (Threw e, s1)
           | (None, s1) \<Rightarrow> in_promise (remove_notify k (emit (Called c OK) s1)))
      | None \<Rightarrow> in_promise (remove_notify k s))"

definition handleLockRequest :: "key \<Rightarrow> mstate \<Rightarrow> mstate" where
  "handleLockRequest k s =
     (if \<not> truthy (locks_get s k) \<and> 0 < length (queue_of s k) then
        (let callback = hd (queue_of s k);
             lockId = JStr (uuid_text (uuid_count s))
         in emit (Granted k callback lockId)
              (s\<lparr>lockRequestQueues := (lockRequestQueues s)(k \<mapsto> tl (queue_of s k)),
                 uuid_count := Suc (uuid_count s),
                 locks := (locks s)(k \<mapsto> lockId)\<rparr>))
      else s)"

text \<open>
  With a callback, \<^verbatim>\<open>getLock\<close> pushes it and then, having no \<^verbatim>\<open>return\<close>, goes on into
  the promise branch. The promise branch makes sure the queue exists, evaluates the
  property \<^verbatim>\<open>.pushresolve\<close> of the array (which pushes nothing) and calls
  \<^verbatim>\<open>handleLockRequest\<close>; nothing keeps \<^verbatim>\<open>resolve\<close>, so the promise stays pending.
\<close>

definition getLock :: "key \<Rightarrow> callback option \<Rightarrow> mstate \<Rightarrow> promise \<times> mstate" where
  "getLock k cb s =
     (let s1 = (case cb of
                  Some c \<Rightarrow>
                    handleLockRequest k
                      (s\<lparr>lockRequestQueues := (lockRequestQueues s)(k \<mapsto> queue_of s k @ [c])\<rparr>)
                | None \<Rightarrow> s);
          s2 = s1\<lparr>lockRequestQueues := (lockRequestQueues s1)(k \<mapsto> queue_of s1 k)\<rparr>
      in (Pending, handleLockRequest k s2))"

definition failed :: "jsval \<Rightarrow> key \<Rightarrow> jsval" where
  "failed lockId k =
     JStr (''Failed. LockId:'' @ js_string lockId @ '' does not match '' @ k @ '''s lockId.'')"

definition lock_delete :: "key \<Rightarrow> jsval \<Rightarrow> mstate \<Rightarrow> mstate" where
  "lock_delete k lockId s = emit (Released k lockId) (s\<lparr>locks := (locks s)(k := None)\<rparr>)"

definition releaseLock :: "key \<Rightarrow> jsval \<Rightarrow> callback option \<Rightarrow> mstate \<Rightarrow> promise \<times> mstate" where
  "releaseLock k lockId cb s =
     (let s1 = (case cb of
                  Some c \<Rightarrow>
                    (if lockId = locks_get s k
                     then emit (Called c OK) (handleLockRequest k (lock_delete k lockId s))
                     else emit (Called c (failed lockId k)) s)
                | None \<Rightarrow> s)
      in if lockId = locks_get s1 k
         then (Resolved OK, handleLockRequest k (lock_delete k lockId s1))
         else (Resolved (failed lockId k), s1))"

text \<open>
  The action given to \<^verbatim>\<open>mutex\<close> is known by how \<^verbatim>\<open>await f()\<close> ends: with a result,
  with an exception, or never.
\<close>

datatype action = Returns jsval | Throws jsval | Hangs

text \<open>The body of \<^verbatim>\<open>mutex\<close> after \<^verbatim>\<open>await this.getLock(k)\<close> has delivered \<open>lockId\<close>.\<close>

definition mutex_resume :: "key \<Rightarrow> jsval \<Rightarrow> action \<Rightarrow> mstate \<Rightarrow> promise \<times> mstate" where
  "mutex_resume k lockId f s =
     (case f of
        Throws e \<Rightarrow> (Rejected (Thrown e), s)
      | Hangs \<Rightarrow> (Pending, s)
      | Returns result \<Rightarrow>
          (case releaseLock k lockId None s of
             (Resolved _, s') \<Rightarrow> (Resolved result, s')
           | (ResolvedMember _, s') \<Rightarrow> (Resolved result, s')
           | (Rejected e, s') \<Rightarrow> (Rejected e, s')
           | (Pending, s') \<Rightarrow> (Pending, s')))"

definition mutex :: "key \<Rightarrow> action \<Rightarrow> mstate \<Rightarrow> promise \<times> mstate" where
  "mutex k f s =
     (case getLock k None s of
        (Resolved lockId, s') \<Rightarrow> mutex_resume k lockId f s'
      | (ResolvedMember n, s') \<Rightarrow> (Pending, s')
      | (Rejected e, s') \<Rightarrow> (Rejected e, s')
      | (Pending, s') \<Rightarrow> (Pending, s'))"

text \<open>
  At an inherited name \<^verbatim>\<open>listeners[k] ?? []\<close> is the inherited member, which has no
  \<^verbatim>\<open>push\<close>: \<^verbatim>\<open>listen\<close> raises and registers nothing.
\<close>

definition listen :: "key \<Rightarrow> listener option \<Rightarrow> mstate \<Rightarrow> js_error option \<times> mstate" where
  "listen k cb s =
     (case cb of
        Some l \<Rightarrow>
          (if inherited k then (Some TypeError, s)
           else (None, s\<lparr>listeners := (listeners s)(k \<mapsto> listeners_of s k @ [l])\<rparr>))
      | None \<Rightarrow> (Some (Error ''a listener must have a callback.''), s))"


subsection \<open>The bounded cache\<close>

text \<open>
  \<^verbatim>\<open>LRUCache\<close> is a library. The coordinator's cache is the list of calls made on it
  since the constructor, and what a \<^verbatim>\<open>get\<close> answers after a given list of calls is a
  parameter \<open>L\<close> of the model. The versions of the library that export the name
  \<^verbatim>\<open>LRUCache\<close> have no method \<^verbatim>\<open>del\<close>, so \<^verbatim>\<open>removeLRU\<close> raises when it calls
  it: out of the method in the branch for a callback, into the promise otherwise.
\<close>

type_synonym lru_reader = "lru_call list \<Rightarrow> key \<Rightarrow> jsval"

definition lru_do :: "lru_call \<Rightarrow> mstate \<Rightarrow> mstate" where
  "lru_do c s = s\<lparr>lru_calls := lru_calls s @ [c]\<rparr>"

definition lru_get :: "lru_reader \<Rightarrow> key \<Rightarrow> mstate \<Rightarrow> jsval \<times> mstate" where
  "lru_get L k s = (L (lru_calls s) k, lru_do (LruGet k) s)"

definition setLRUOptions :: "lru_options \<Rightarrow> mstate \<Rightarrow> mstate" where
  "setLRUOptions options s =
     lru_do (LruNew \<lparr>opt_max = (case opt_max options of
                                  None \<Rightarrow> opt_max defaultLRUOptions | Some n \<Rightarrow> Some n),
                     opt_maxAge = (case opt_maxAge options of
                                     None \<Rightarrow> opt_maxAge defaultLRUOptions | Some n \<Rightarrow> Some n)\<rparr>) s"

definition getLRU :: "lru_reader \<Rightarrow> key \<Rightarrow> callback option \<Rightarrow> mstate \<Rightarrow> promise \<times> mstate" where
  "getLRU L k cb s =
     (let s1 = (case cb of
                  Some c \<Rightarrow> (case lru_get L k s of (v, s') \<Rightarrow> emit (Called c v) s')
                | None \<Rightarrow> s)
      in case lru_get L k s1 of (v, s2) \<Rightarrow> (Resolved v, s2))"

definition setLRU :: "key \<Rightarrow> jsval \<Rightarrow> callback option \<Rightarrow> mstate \<Rightarrow> call_result \<times> mstate" where
  "setLRU k v cb s =
     (if k \<noteq> [] then
        (let s1 = (case cb of
                     Some c \<Rightarrow> emit (Called c OK) (lru_do (LruSet k v) s)
                   | None \<Rightarrow> s)
         in (Returned (Resolved OK), lru_do (LruSet k v) s1))
      else (Returned_other, s))"

definition removeLRU :: "key \<Rightarrow> callback option \<Rightarrow> mstate \<Rightarrow> call_result \<times> mstate" where
  "removeLRU k cb s =
     (case cb of
        Some c \<Rightarrow> (Threw TypeError, s)
      | None \<Rightarrow> (Returned (Rejected TypeError), s))"

text \<open>A cache that never has the key, for concrete runs.\<close>

definition lru_miss :: lru_reader where
  "lru_miss calls k = JUndefined"

subsection \<open>Dispatch of a worker's request\<close>

text \<open>
  \<^verbatim>\<open>this[data.method]\<close> finds whatever member of the coordinator has that name, not
  only the operations of the protocol. \<open>member_of\<close> lists the methods. Under any
  other name there is nothing, or something that cannot be called (a field, the class
  constructor), or an inherited function whose result has no \<^verbatim>\<open>then\<close>: the call
  ends in a \<^verbatim>\<open>TypeError\<close> with the state as it was.
\<close>

datatype member =
    M_set | M_get | M_remove | M_getLock | M_releaseLock | M_mutex | M_handleLockRequest
  | M_listen | M_removeListener | M_notifyListener | M_getLRU | M_setLRU | M_removeLRU
  | M_setLRUOptions | M_handle | M_logger

definition member_of :: "string \<Rightarrow> member option" where
  "member_of name =
     map_of [(''set'', M_set), (''get'', M_get), (''remove'', M_remove),
             (''getLock'', M_getLock), (''releaseLock'', M_releaseLock),
             (''mutex'', M_mutex), (''handleLockRequest'', M_handleLockRequest),
             (''listen'', M_listen), (''removeListener'', M_removeListener),
             (''notifyListener'', M_notifyListener), (''getLRU'', M_getLRU),
             (''setLRU'', M_setLRU), (''removeLRU'', M_removeLRU),
             (''setLRUOptions'', M_setLRUOptions), (''handle'', M_handle),
             (''logger'', M_logger)] name"

text \<open>
  \<^verbatim>\<open>this[data.method](key, arg2)\<close>, where \<open>arg2\<close> is a value out of a message and so
  never a function: a method that takes a callback in that place runs its promise
  branch only.
\<close>

fun call_member :: "lru_reader \<Rightarrow> member \<Rightarrow> key \<Rightarrow> jsval \<Rightarrow> mstate \<Rightarrow> call_result \<times> mstate" where
  "call_member L M_set k v s = manager_set k v None s"
| "call_member L M_get k v s = (case manager_get k None s of (p, s') \<Rightarrow> (Returned p, s'))"
| "call_member L M_remove k v s = manager_remove k None s"
| "call_member L M_getLock k v s = (case getLock k None s of (p, s') \<Rightarrow> (Returned p, s'))"
| "call_member L M_releaseLock k v s =
     (case releaseLock k v None s of (p, s') \<Rightarrow> (Returned p, s'))"
| "call_member L M_mutex k v s =
     (case mutex k (Throws (JStr ''f is not a function'')) s of
        (p, s') \<Rightarrow> (Returned p, s'))"
| "call_member L M_handleLockRequest k v s = (Returned (Resolved JUndefined), handleLockRequest k s)"
| "call_member L M_listen k v s =
     (case listen k None s of (Some e, s') \<Rightarrow> (Threw e, s') | (None, s') \<Rightarrow> (Returned_other, s'))"
| "call_member L M_removeListener k v s =
     (if inherited k then (Threw TypeError, s) else (Returned_other, s))"
| "call_member L M_notifyListener k v s =
     (case notifyListener k s of
        (Some e, s') \<Rightarrow> (Threw e, s') | (None, s') \<Rightarrow> (Returned_other, s'))"
| "call_member L M_getLRU k v s = (case getLRU L k None s of (p, s') \<Rightarrow> (Returned p, s'))"
| "call_member L M_setLRU k v s = setLRU k v None s"
| "call_member L M_removeLRU k v s = removeLRU k None s"
| "call_member L M_setLRUOptions k v s =
     (Returned_other, setLRUOptions \<lparr>opt_max = None, opt_maxAge = None\<rparr> s)"
| "call_member L M_handle k v s = (Threw TypeError, s)"
| "call_member L M_logger k v s =
     (Returned_other,
      emit (Logged (LoggedArgs (if v = JUndefined then [JStr k] else [JStr k, v]))) s)"

text \<open>
  \<^verbatim>\<open>handle\<close> registers a listener for a \<^verbatim>\<open>listen\<close> request. Otherwise it calls the
  member and puts a \<^verbatim>\<open>then\<close> on what the call gives back: a resolved promise is
  answered with its value, a pending one is never answered, a rejected one is never
  answered and its rejection has no handler, and something without a \<^verbatim>\<open>then\<close> makes
  \<^verbatim>\<open>handle\<close> raise.
\<close>

definition handle :: "lru_reader \<Rightarrow> request \<Rightarrow> nat \<Rightarrow> mstate \<Rightarrow> js_error option \<times> mstate" where
  "handle L data target s =
     (if req_method data = ''listen'' then
        (let listener = Remote (closure_count s) target (req_id data) (req_uuid data) (req_key data)
         in listen (req_key data) (Some listener) (s\<lparr>closure_count := Suc (closure_count s)\<rparr>))
      else
        (let arg2 = (if truthy (req_value data) then req_value data else JUndefined)
         in case member_of (req_method data) of
              None \<Rightarrow> (Some TypeError, s)
            | Some m \<Rightarrow>
                (case call_member L m (req_key data) arg2 s of
                   (Threw e, s') \<Rightarrow> (Some e, s')
                 | (Returned_other, s') \<Rightarrow> (Some TypeError, s')
                 | (Returned (Resolved v), s') \<Rightarrow>
                     (None, send target \<lparr>msg_isSharedMemoryMessage = True, isNotified = False,
                                          msg_id = req_id data, msg_uuid = req_uuid data,
                                          msg_value = Val v\<rparr> s')
                 | (Returned (ResolvedMember n), s') \<Rightarrow>
                     (None, send target \<lparr>msg_isSharedMemoryMessage = True, isNotified = False,
                                          msg_id = req_id data, msg_uuid = req_uuid data,
                                          msg_value = Member n\<rparr> s')
                 | (Returned (Rejected e), s') \<Rightarrow> (Some (UnhandledRejection e), s')
                 | (Returned Pending, s') \<Rightarrow> (None, s'))))"

text \<open>The \<^verbatim>\<open>message\<close> listener that the constructor installs on every online worker.\<close>

definition on_message :: "lru_reader \<Rightarrow> request \<Rightarrow> nat \<Rightarrow> mstate \<Rightarrow> js_error option \<times> mstate" where
  "on_message L data worker s =
     (if \<not> isSharedMemoryMessage data then (None, s) else handle L data worker s)"

subsection \<open>Runs of the coordinator\<close>

text \<open>
  The coordinator runs one call to its end before the next begins. A call is a use of
  the public interface in the coordinator's process, a message from a worker, or a
  worker's channel changing state. A caller's callback does not call back into the
  coordinator while it runs.
\<close>

datatype call =
    Set key jsval "callback option"
  | Get key "callback option"
  | Remove key "callback option"
  | GetLock key "callback option"
  | ReleaseLock key jsval "callback option"
  | HandleLockRequest key
  | Mutex key action
  | Listen key "callback option"
  | GetLRU key "callback option"
  | SetLRU key jsval "callback option"
  | RemoveLRU key "callback option"
  | SetLRUOptions lru_options
  | Message request nat
  | WorkerStatus nat wstatus

fun exec :: "lru_reader \<Rightarrow> call \<Rightarrow> mstate \<Rightarrow> mstate" where
  "exec L (Set k v cb) s = snd (manager_set k v cb s)"
| "exec L (Get k cb) s = snd (manager_get k cb s)"
| "exec L (Remove k cb) s = snd (manager_remove k cb s)"
| "exec L (GetLock k cb) s = snd (getLock k cb s)"
| "exec L (ReleaseLock k lockId cb) s = snd (releaseLock k lockId cb s)"
| "exec L (HandleLockRequest k) s = handleLockRequest k s"
| "exec L (Mutex k f) s = snd (mutex k f s)"
| "exec L (Listen k cb) s = snd (listen k (map_option Local cb) s)"
| "exec L (GetLRU k cb) s = snd (getLRU L k cb s)"
| "exec L (SetLRU k v cb) s = snd (setLRU k v cb s)"
| "exec L (RemoveLRU k cb) s = snd (removeLRU k cb s)"
| "exec L (SetLRUOptions options) s = setLRUOptions options s"
| "exec L (Message data worker) s = snd (on_message L data worker s)"
| "exec L (WorkerStatus w st) s = s\<lparr>workers := (workers s)(w := st)\<rparr>"

fun run :: "lru_reader \<Rightarrow> call list \<Rightarrow> mstate \<Rightarrow> mstate" where
  "run L [] s = s"
| "run L (c # cs) s = run L cs (exec L c s)"

subsection \<open>Reading the effects\<close>

text \<open>The callbacks granted key \<open>k\<close>, oldest first, and the tokens they were given.\<close>

fun granted_of :: "key \<Rightarrow> event list \<Rightarrow> callback list" where
  "granted_of k [] = []"
| "granted_of k (Granted k' c t # es) = (if k' = k then c # granted_of k es else granted_of k es)"
| "granted_of k (e # es) = granted_of k es"

fun minted :: "event list \<Rightarrow> jsval list" where
  "minted [] = []"
| "minted (Granted k c t # es) = t # minted es"
| "minted (e # es) = minted es"

text \<open>The callbacks that \<^verbatim>\<open>getLock\<close> calls pushed on the queue of \<open>k\<close>, oldest first.\<close>

fun enqueued_of :: "key \<Rightarrow> call list \<Rightarrow> callback list" where
  "enqueued_of k [] = []"
| "enqueued_of k (GetLock k' (Some c) # cs) =
     (if k' = k then c # enqueued_of k cs else enqueued_of k cs)"
| "enqueued_of k (c # cs) = enqueued_of k cs"

text \<open>
  The tokens of \<open>k\<close> that are outstanding: handed to a callback and not yet released.
  \<open>hold\<close> moves the outstanding tokens over one effect.
\<close>

fun hold :: "key \<Rightarrow> jsval list \<Rightarrow> event \<Rightarrow> jsval list" where
  "hold k hs (Granted k' c t) = (if k' = k then hs @ [t] else hs)"
| "hold k hs (Released k' t) = (if k' = k then removeAll t hs else hs)"
| "hold k hs e = hs"

definition outstanding :: "key \<Rightarrow> event list \<Rightarrow> jsval list" where
  "outstanding k es = foldl (hold k) [] es"

text \<open>
  \<open>grants_exclusive k hs es\<close>: starting with the outstanding tokens \<open>hs\<close>, every grant of
  \<open>k\<close> in \<open>es\<close> happens while no token of \<open>k\<close> is outstanding.
\<close>

fun grants_exclusive :: "key \<Rightarrow> jsval list \<Rightarrow> event list \<Rightarrow> bool" where
  "grants_exclusive k hs [] = True"
| "grants_exclusive k hs (Granted k' c t # es) =
     ((if k' = k then hs = [] else True) \<and> grants_exclusive k (hold k hs (Granted k' c t)) es)"
| "grants_exclusive k hs (e # es) = grants_exclusive k (hold k hs e) es"

text \<open>
  Everybody who ever stood in the queue of \<open>k\<close>: those granted, oldest first, and
  then those still waiting.
\<close>

definition line_of :: "key \<Rightarrow> mstate \<Rightarrow> callback list" where
  "line_of k s = granted_of k (effects s) @ queue_of s k"

text \<open>
  The part of the state that the lock manager reads and writes: the lock table, the
  queues, the count of tokens made, and the grants and releases among the effects.
\<close>

fun lock_event :: "event \<Rightarrow> bool" where
  "lock_event (Granted k c t) = True"
| "lock_event (Released k t) = True"
| "lock_event e = False"

definition lock_view ::
  "mstate \<Rightarrow> (key \<rightharpoonup> jsval) \<times> (key \<rightharpoonup> callback list) \<times> nat \<times> event list" where
  "lock_view s = (locks s, lockRequestQueues s, uuid_count s, filter lock_event (effects s))"

text \<open>
  What every run keeps true: the outstanding tokens of a key are exactly its recorded
  holder, grants are exclusive, every token was made earlier and only once, and a key
  without holder has nobody waiting.
\<close>

definition tokens_ok :: "mstate \<Rightarrow> bool" where
  "tokens_ok s \<longleftrightarrow>
     (\<forall>k. outstanding k (effects s) = (case locks s k of None \<Rightarrow> [] | Some t \<Rightarrow> [t])) \<and>
     (\<forall>k. grants_exclusive k [] (effects s)) \<and>
     (\<forall>k t. locks s k = Some t \<longrightarrow> (\<exists>i<uuid_count s. t = JStr (uuid_text i))) \<and>
     (\<forall>t\<in>set (minted (effects s)). \<exists>i<uuid_count s. t = JStr (uuid_text i)) \<and>
     distinct (minted (effects s))"

definition idle_ok :: "mstate \<Rightarrow> key \<Rightarrow> bool" where
  "idle_ok s k \<longleftrightarrow> (locks s k = None \<longrightarrow> queue_of s k = [])"

definition lock_inv :: "mstate \<Rightarrow> bool" where
  "lock_inv s \<longleftrightarrow> tokens_ok s \<and> (\<forall>k. idle_ok s k)"

text \<open>
  A listener is live when calling it delivers: a local function always, a worker's
  closure while the worker's channel is open. \<open>delivery l v\<close> is what a live
  listener does with the value \<open>v\<close>.
\<close>

fun live :: "mstate \<Rightarrow> listener \<Rightarrow> bool" where
  "live s (Local c) = True"
| "live s (Remote n target wid u k) = (workers s target = Connected)"


section \<open>The worker's proxy (class Worker)\<close>

text \<open>
  The callbacks that the proxy keeps per request are the caller's function, or the
  closures \<^verbatim>\<open>v => resolve(v)\<close> and \<^verbatim>\<open>() => resolve()\<close> of a promise, known by the
  promise's number. An \<^verbatim>\<open>await\<close> inside \<^verbatim>\<open>mutex\<close> leaves a frame on the promise it
  waits for; the frame carries the number of the promise that \<^verbatim>\<open>mutex\<close> returned.
\<close>

datatype wcallback = UserCb callback | ResolveWith nat | ResolveUnit nat

datatype frame = AwaitLock nat key action | AwaitRelease nat jsval

datatype wevent =
    WSent request
  | WCalled callback jsval
  | WResolved nat jsval
  | WRejected nat jsval

record wstate =
  worker_id :: nat
  getCallbacks :: "string \<rightharpoonup> wcallback"
  getListenerCallbacks :: "string \<rightharpoonup> wcallback"
  awaiting :: "nat \<rightharpoonup> frame"
  w_uuid_count :: nat
  promise_count :: nat
  w_effects :: "wevent list"

definition winit :: "nat \<Rightarrow> wstate" where
  "winit n = \<lparr>worker_id = n, getCallbacks = Map.empty, getListenerCallbacks = Map.empty,
              awaiting = Map.empty, w_uuid_count = 0, promise_count = 0, w_effects = []\<rparr>"

definition wemit :: "wevent \<Rightarrow> wstate \<Rightarrow> wstate" where
  "wemit e w = w\<lparr>w_effects := w_effects w @ [e]\<rparr>"

definition worker_handle :: "string \<Rightarrow> key \<Rightarrow> jsval \<Rightarrow> wcallback \<Rightarrow> wstate \<Rightarrow> wstate" where
  "worker_handle m k v cb w =
     (let uuid = uuid_text (w_uuid_count w);
          w1 = wemit (WSent \<lparr>isSharedMemoryMessage = True, req_id = worker_id w, req_method = m,
                              req_uuid = uuid, req_key = k, req_value = v\<rparr>)
                 (w\<lparr>w_uuid_count := Suc (w_uuid_count w)\<rparr>)
      in if m = ''listen''
         then w1\<lparr>getListenerCallbacks := (getListenerCallbacks w1)(uuid \<mapsto> cb)\<rparr>
         else w1\<lparr>getCallbacks := (getCallbacks w1)(uuid \<mapsto> cb)\<rparr>)"

text \<open>
  Each method sends once for a callback and, having no \<^verbatim>\<open>return\<close>, once more for the
  promise it returns. The result is the number of that promise.
\<close>

definition worker_call ::
  "string \<Rightarrow> key \<Rightarrow> jsval \<Rightarrow> callback option \<Rightarrow> (nat \<Rightarrow> wcallback) \<Rightarrow> wstate \<Rightarrow> nat \<times> wstate" where
  "worker_call m k v cb resolver w =
     (let w1 = (case cb of Some c \<Rightarrow> worker_handle m k v (UserCb c) w | None \<Rightarrow> w);
          p = promise_count w1
      in (p, worker_handle m k v (resolver p) (w1\<lparr>promise_count := Suc p\<rparr>)))"


definition worker_get :: "key \<Rightarrow> callback option \<Rightarrow> wstate \<Rightarrow> nat \<times> wstate" where
  "worker_get k cb w = worker_call ''get'' k JNull cb ResolveWith w"

definition worker_remove :: "key \<Rightarrow> callback option \<Rightarrow> wstate \<Rightarrow> nat \<times> wstate" where
  "worker_remove k cb w = worker_call ''remove'' k JNull cb ResolveUnit w"

definition worker_getLock :: "key \<Rightarrow> callback option \<Rightarrow> wstate \<Rightarrow> nat \<times> wstate" where
  "worker_getLock k cb w = worker_call ''getLock'' k JNull cb ResolveWith w"

definition worker_releaseLock :: "key \<Rightarrow> jsval \<Rightarrow> callback option \<Rightarrow> wstate \<Rightarrow> nat \<times> wstate" where
  "worker_releaseLock k lockId cb w = worker_call ''releaseLock'' k lockId cb ResolveWith w"

definition worker_getLRU :: "key \<Rightarrow> callback option \<Rightarrow> wstate \<Rightarrow> nat \<times> wstate" where
  "worker_getLRU k cb w = worker_call ''getLRU'' k JNull cb ResolveWith w"

definition worker_setLRU :: "key \<Rightarrow> jsval \<Rightarrow> callback option \<Rightarrow> wstate \<Rightarrow> nat \<times> wstate" where
  "worker_setLRU k v cb w = worker_call ''setLRU'' k v cb ResolveUnit w"

definition worker_removeLRU :: "key \<Rightarrow> callback option \<Rightarrow> wstate \<Rightarrow> nat \<times> wstate" where
  "worker_removeLRU k cb w = worker_call ''removeLRU'' k JNull cb ResolveUnit w"

definition worker_listen :: "key \<Rightarrow> callback option \<Rightarrow> wstate \<Rightarrow> js_error option \<times> wstate" where
  "worker_listen k cb w =
     (case cb of
        Some c \<Rightarrow> (None, worker_handle ''listen'' k JNull (UserCb c) w)
      | None \<Rightarrow> (Some (Error ''a listener must have a callback.''), w))"

text \<open>
  \<^verbatim>\<open>mutex\<close> creates its own promise, asks for the lock and waits for the answer. When
  the answer comes the frame runs the action and, after a normal end only, asks for the
  release and waits again.
\<close>

definition worker_mutex :: "key \<Rightarrow> action \<Rightarrow> wstate \<Rightarrow> nat \<times> wstate" where
  "worker_mutex k f w =
     (let mp = promise_count w
      in case worker_getLock k None (w\<lparr>promise_count := Suc mp\<rparr>) of
           (p, w') \<Rightarrow> (mp, w'\<lparr>awaiting := (awaiting w')(p \<mapsto> AwaitLock mp k f)\<rparr>))"

fun run_frame :: "frame \<Rightarrow> jsval \<Rightarrow> wstate \<Rightarrow> wstate" where
  "run_frame (AwaitLock mp k f) lockId w =
     (case f of
        Throws e \<Rightarrow> wemit (WRejected mp e) w
      | Hangs \<Rightarrow> w
      | Returns result \<Rightarrow>
          (case worker_releaseLock k lockId None w of
             (p, w') \<Rightarrow> w'\<lparr>awaiting := (awaiting w')(p \<mapsto> AwaitRelease mp result)\<rparr>))"
| "run_frame (AwaitRelease mp result) v w = wemit (WResolved mp result) w"

definition settle :: "nat \<Rightarrow> jsval \<Rightarrow> wstate \<Rightarrow> wstate" where
  "settle p v w =
     (case awaiting w p of
        None \<Rightarrow> wemit (WResolved p v) w
      | Some fr \<Rightarrow> run_frame fr v (w\<lparr>awaiting := (awaiting w)(p := None)\<rparr>))"

text \<open>
  Calling a kept callback: the caller's function runs at once; a promise's resolver
  only marks the promise, and what waits for it runs after the listener has returned.
\<close>

fun call_now :: "wcallback \<Rightarrow> jsval \<Rightarrow> wstate \<Rightarrow> wstate" where
  "call_now (UserCb c) v w = wemit (WCalled c v) w"
| "call_now cb v w = w"

fun call_after :: "wcallback \<Rightarrow> jsval \<Rightarrow> wstate \<Rightarrow> wstate" where
  "call_after (UserCb c) v w = w"
| "call_after (ResolveWith p) v w = settle p v w"
| "call_after (ResolveUnit p) v w = settle p JUndefined w"

text \<open>A message as it arrives in the worker, after the channel has carried it.\<close>

record inbound =
  in_isSharedMemoryMessage :: bool
  in_isNotified :: bool
  in_uuid :: string
  in_value :: jsval

definition worker_on_message :: "inbound \<Rightarrow> wstate \<Rightarrow> wstate" where
  "worker_on_message data w =
     (if \<not> in_isSharedMemoryMessage data then w
      else if in_isNotified data then
        (case getListenerCallbacks w (in_uuid data) of
           Some cb \<Rightarrow> call_after cb (in_value data) (call_now cb (in_value data) w)
         | None \<Rightarrow> w)
      else
        (let forget = (\<lambda>w'. w'\<lparr>getCallbacks := (getCallbacks w')(in_uuid data := None)\<rparr>)
         in case getCallbacks w (in_uuid data) of
              Some cb \<Rightarrow> call_after cb (in_value data) (forget (call_now cb (in_value data) w))
            | None \<Rightarrow> forget w))"

section \<open>Tokens are unique\<close>

lemma dec_nonempty: "dec n \<noteq> []"
  by (subst dec.simps) simp

lemma digit_inj: "a < 10 \<Longrightarrow> b < 10 \<Longrightarrow> digit a = digit b \<Longrightarrow> a = b"
proof -
  assume a: "a < 10" and b: "b < 10" and e: "digit a = digit b"
  from e have "(of_char (char_of (48 + a) :: char) :: nat) = of_char (char_of (48 + b) :: char)"
    by (simp add: digit_def)
  with a b show "a = b" by (simp add: of_char_of)
qed

lemma dec_inj: "dec a = dec b \<Longrightarrow> a = b"
proof (induction a arbitrary: b rule: dec.induct)
  case (1 n)
  show ?case
  proof (cases "n < 10")
    case True
    then have dn: "dec n = [digit n]" by (subst dec.simps) simp
    show ?thesis
    proof (cases "b < 10")
      case True
      then have "dec b = [digit b]" by (subst dec.simps) simp
      with dn "1.prems" \<open>n < 10\<close> True show ?thesis by (auto dest: digit_inj)
    next
      case False
      then have "dec b = dec (b div 10) @ [digit (b mod 10)]" by (subst dec.simps) simp
      with dn "1.prems" have "dec (b div 10) = []" by simp
      then show ?thesis by (simp add: dec_nonempty)
    qed
  next
    case False
    then have dn: "dec n = dec (n div 10) @ [digit (n mod 10)]" by (subst dec.simps) simp
    show ?thesis
    proof (cases "b < 10")
      case True
      then have "dec b = [digit b]" by (subst dec.simps) simp
      with dn "1.prems" have "dec (n div 10) = []" by simp
      then show ?thesis by (simp add: dec_nonempty)
    next
      case b10: False
      then have "dec b = dec (b div 10) @ [digit (b mod 10)]" by (subst dec.simps) simp
      with dn "1.prems" have e1: "dec (n div 10) = dec (b div 10)"
        and e2: "digit (n mod 10) = digit (b mod 10)" by simp_all
      from "1.IH" [OF False e1] have d: "n div 10 = b div 10" .
      from e2 have m: "n mod 10 = b mod 10" by (auto dest!: digit_inj [rotated 2])
      from d m show ?thesis by (metis div_mult_mod_eq)
    qed
  qed
qed

lemma uuid_text_inj: "uuid_text a = uuid_text b \<longleftrightarrow> a = b"
  by (auto simp: uuid_text_def dest: dec_inj)

lemma truthy_uuid: "truthy (JStr (uuid_text n))"
  by (simp add: uuid_text_def)

section \<open>The lock manager's view of the state\<close>

lemma outstanding_snoc: "outstanding k (es @ [e]) = hold k (outstanding k es) e"
  by (simp add: outstanding_def)

lemma hold_silent: "\<not> lock_event e \<Longrightarrow> hold k hs e = hs"
  by (cases e) simp_all

lemma foldl_hold_filter: "foldl (hold k) hs (filter lock_event es) = foldl (hold k) hs es"
  by (induction es arbitrary: hs) (simp_all add: hold_silent)

lemma outstanding_filter: "outstanding k (filter lock_event es) = outstanding k es"
  by (simp add: outstanding_def foldl_hold_filter)

lemma grants_exclusive_filter:
  "grants_exclusive k hs (filter lock_event es) = grants_exclusive k hs es"
proof (induction es arbitrary: hs)
  case Nil
  then show ?case by simp
next
  case (Cons e es)
  then show ?case by (cases e) simp_all
qed

lemma minted_filter: "minted (filter lock_event es) = minted es"
proof (induction es)
  case Nil
  then show ?case by simp
next
  case (Cons e es)
  then show ?case by (cases e) simp_all
qed

lemma granted_of_filter: "granted_of k (filter lock_event es) = granted_of k es"
proof (induction es)
  case Nil
  then show ?case by simp
next
  case (Cons e es)
  then show ?case by (cases e) simp_all
qed

lemma grants_exclusive_append:
  "grants_exclusive k hs (es @ es') \<longleftrightarrow>
     grants_exclusive k hs es \<and> grants_exclusive k (foldl (hold k) hs es) es'"
proof (induction es arbitrary: hs)
  case Nil
  then show ?case by simp
next
  case (Cons e es)
  then show ?case by (cases e) auto
qed

lemma minted_append: "minted (es @ es') = minted es @ minted es'"
proof (induction es)
  case Nil
  then show ?case by simp
next
  case (Cons e es)
  then show ?case by (cases e) simp_all
qed

lemma granted_of_append: "granted_of k (es @ es') = granted_of k es @ granted_of k es'"
proof (induction es)
  case Nil
  then show ?case by simp
next
  case (Cons e es)
  then show ?case by (cases e) simp_all
qed

lemma tokens_ok_view: "lock_view s' = lock_view s \<Longrightarrow> tokens_ok s' = tokens_ok s"
proof -
  assume v: "lock_view s' = lock_view s"
  then have f: "filter lock_event (effects s') = filter lock_event (effects s)"
    and l: "locks s' = locks s" and u: "uuid_count s' = uuid_count s"
    by (simp_all add: lock_view_def)
  have o: "\<And>k. outstanding k (effects s') = outstanding k (effects s)"
    using f by (metis outstanding_filter)
  have g: "\<And>k. grants_exclusive k [] (effects s') = grants_exclusive k [] (effects s)"
    using f by (metis grants_exclusive_filter)
  have m: "minted (effects s') = minted (effects s)"
    using f by (metis minted_filter)
  show ?thesis by (simp add: tokens_ok_def o g m l u)
qed

lemma lock_inv_view: "lock_view s' = lock_view s \<Longrightarrow> lock_inv s' = lock_inv s"
proof -
  assume v: "lock_view s' = lock_view s"
  then have "locks s' = locks s" and "lockRequestQueues s' = lockRequestQueues s"
    by (simp_all add: lock_view_def)
  then have "\<And>k. idle_ok s' k = idle_ok s k" by (simp add: idle_ok_def queue_of_def)
  with tokens_ok_view [OF v] show ?thesis by (simp add: lock_inv_def)
qed

lemma granted_of_view: "lock_view s' = lock_view s \<Longrightarrow> granted_of k (effects s') = granted_of k (effects s)"
  by (metis granted_of_filter lock_view_def prod.inject)

lemma queue_of_view: "lock_view s' = lock_view s \<Longrightarrow> queue_of s' k = queue_of s k"
  by (simp add: lock_view_def queue_of_def)

lemma lock_view_emit [simp]: "\<not> lock_event e \<Longrightarrow> lock_view (emit e s) = lock_view s"
  by (simp add: lock_view_def emit_def)

lemma lock_view_fields [simp]:
  "lock_view (s\<lparr>memory := m\<rparr>) = lock_view s"
  "lock_view (s\<lparr>memory_bare := b\<rparr>) = lock_view s"
  "lock_view (s\<lparr>listeners := l\<rparr>) = lock_view s"
  "lock_view (s\<lparr>lru_calls := c\<rparr>) = lock_view s"
  "lock_view (s\<lparr>closure_count := n\<rparr>) = lock_view s"
  "lock_view (s\<lparr>workers := w\<rparr>) = lock_view s"
  by (simp_all add: lock_view_def)

lemma lock_view_sm_set [simp]: "lock_view (sm_set k v s) = lock_view s"
  by (simp add: sm_set_def)

lemma lock_view_sm_remove [simp]: "lock_view (sm_remove k s) = lock_view s"
  by (simp add: sm_remove_def)

lemma lock_view_send [simp]: "lock_view (send t m s) = lock_view s"
  by (simp add: send_def)

lemma lock_event_reading [simp]: "\<not> lock_event (called c r)" "\<not> lock_event (notified c r)"
  by (cases r; simp)+

lemma lock_view_removeListener [simp]: "lock_view (snd (removeListener k l s)) = lock_view s"
  by (simp add: removeListener_def)

lemma lock_view_call_listener [simp]: "lock_view (call_listener l v s) = lock_view s"
  by (cases l) simp_all

lemma lock_view_notify_indices [simp]: "lock_view (notify_indices k is s) = lock_view s"
  by (induction "is" arbitrary: s) simp_all

lemma lock_view_notifyListener [simp]: "lock_view (snd (notifyListener k s)) = lock_view s"
  by (simp add: notifyListener_def split: option.splits)

lemma lock_view_write_notify [simp]: "lock_view (snd (write_notify k v s)) = lock_view s"
  by (simp add: write_notify_def)

lemma lock_view_remove_notify [simp]: "lock_view (snd (remove_notify k s)) = lock_view s"
  by (simp add: remove_notify_def)

lemma lock_view_write_notifyD: "write_notify k v s = (r, s1) \<Longrightarrow> lock_view s1 = lock_view s"
  using lock_view_write_notify [of k v s] by simp

lemma lock_view_remove_notifyD: "remove_notify k s = (r, s1) \<Longrightarrow> lock_view s1 = lock_view s"
  using lock_view_remove_notify [of k s] by simp

lemma snd_in_promise [simp]: "snd (in_promise r) = snd r"
  by (simp add: in_promise_def split: prod.splits option.splits)

lemma lock_view_manager_set [simp]: "lock_view (snd (manager_set k v cb s)) = lock_view s"
proof (cases cb)
  case None
  then show ?thesis by (simp add: manager_set_def)
next
  case (Some c)
  then show ?thesis
    by (auto simp: manager_set_def split: prod.splits option.splits
             dest!: lock_view_write_notifyD)
qed

lemma lock_view_manager_get [simp]: "lock_view (snd (manager_get k cb s)) = lock_view s"
  by (cases cb) (simp_all add: manager_get_def Let_def)

lemma lock_view_manager_remove [simp]: "lock_view (snd (manager_remove k cb s)) = lock_view s"
proof (cases cb)
  case None
  then show ?thesis by (simp add: manager_remove_def)
next
  case (Some c)
  then show ?thesis
    by (auto simp: manager_remove_def split: prod.splits option.splits
             dest!: lock_view_remove_notifyD)
qed

lemma lock_view_listen [simp]: "lock_view (snd (listen k cb s)) = lock_view s"
  by (cases cb) (simp_all add: listen_def)

lemma lock_view_lru_do [simp]: "lock_view (lru_do c s) = lock_view s"
  by (simp add: lru_do_def)

lemma lock_view_getLRU [simp]: "lock_view (snd (getLRU L k cb s)) = lock_view s"
  by (cases cb) (simp_all add: getLRU_def lru_get_def Let_def)

lemma lock_view_setLRU [simp]: "lock_view (snd (setLRU k v cb s)) = lock_view s"
  by (cases cb) (simp_all add: setLRU_def)

lemma lock_view_removeLRU [simp]: "lock_view (snd (removeLRU k cb s)) = lock_view s"
  by (cases cb) (simp_all add: removeLRU_def)

lemma lock_view_setLRUOptions [simp]: "lock_view (setLRUOptions opts s) = lock_view s"
  by (simp add: setLRUOptions_def)

section \<open>What every run keeps true\<close>

lemma tokens_ok_queues [simp]: "tokens_ok (s\<lparr>lockRequestQueues := q\<rparr>) = tokens_ok s"
  by (simp add: tokens_ok_def)

lemma tokens_ok_outstanding:
  "tokens_ok s \<Longrightarrow> outstanding k (effects s) = (case locks s k of None \<Rightarrow> [] | Some t \<Rightarrow> [t])"
  unfolding tokens_ok_def by blast

lemma tokens_ok_exclusive: "tokens_ok s \<Longrightarrow> grants_exclusive k [] (effects s)"
  unfolding tokens_ok_def by blast

lemma tokens_ok_holder:
  "tokens_ok s \<Longrightarrow> locks s k = Some t \<Longrightarrow> \<exists>i<uuid_count s. t = JStr (uuid_text i)"
  unfolding tokens_ok_def by blast

lemma tokens_ok_minted:
  "tokens_ok s \<Longrightarrow> t \<in> set (minted (effects s)) \<Longrightarrow> \<exists>i<uuid_count s. t = JStr (uuid_text i)"
  unfolding tokens_ok_def by blast

lemma tokens_ok_distinct: "tokens_ok s \<Longrightarrow> distinct (minted (effects s))"
  unfolding tokens_ok_def by blast

lemma held_truthy: "tokens_ok s \<Longrightarrow> \<not> truthy (locks_get s k) \<Longrightarrow> locks s k = None"
proof (cases "locks s k")
  case None
  then show ?thesis by simp
next
  case (Some a)
  assume ok: "tokens_ok s" and nt: "\<not> truthy (locks_get s k)"
  from tokens_ok_holder [OF ok Some] obtain i where "a = JStr (uuid_text i)" by blast
  with nt Some truthy_uuid [of i] show ?thesis by (simp add: locks_get_def)
qed

lemma fresh_not_minted:
  "tokens_ok s \<Longrightarrow> JStr (uuid_text (uuid_count s)) \<notin> set (minted (effects s))"
  by (auto simp: uuid_text_inj dest!: tokens_ok_minted)

lemma tokens_ok_handleLockRequest: "tokens_ok s \<Longrightarrow> tokens_ok (handleLockRequest k s)"
proof (cases "\<not> truthy (locks_get s k) \<and> 0 < length (queue_of s k)")
  case False
  assume "tokens_ok s"
  with False show ?thesis by (auto simp: handleLockRequest_def)
next
  case True
  assume ok: "tokens_ok s"
  define t where "t = JStr (uuid_text (uuid_count s))"
  define c where "c = hd (queue_of s k)"
  define s' where "s' = handleLockRequest k s"
  from True ok have free: "locks s k = None" by (simp add: held_truthy)
  from True have eff: "effects s' = effects s @ [Granted k c t]"
    and lk: "locks s' = (locks s)(k \<mapsto> t)" and uc: "uuid_count s' = Suc (uuid_count s)"
    by (simp_all add: s'_def handleLockRequest_def Let_def emit_def t_def c_def)
  from free have out: "outstanding k (effects s) = []" by (simp add: tokens_ok_outstanding [OF ok])
  have 1: "outstanding k' (effects s') = (case locks s' k' of None \<Rightarrow> [] | Some t \<Rightarrow> [t])" for k'
    using out by (cases "k' = k") (simp_all add: eff lk outstanding_snoc tokens_ok_outstanding [OF ok])
  from out have out': "foldl (hold k) [] (effects s) = []" by (simp add: outstanding_def)
  note ge = tokens_ok_exclusive [OF ok]
  have 2: "grants_exclusive k' [] (effects s')" for k'
    by (cases "k' = k") (simp_all add: eff grants_exclusive_append ge out')
  have 3: "\<exists>i<uuid_count s'. t' = JStr (uuid_text i)" if "locks s' k' = Some t'" for k' t'
  proof (cases "k' = k")
    case True
    with that have "t' = t" by (simp add: lk)
    then show ?thesis by (auto simp: uc t_def)
  next
    case False
    with that have "locks s k' = Some t'" by (simp add: lk)
    from tokens_ok_holder [OF ok this] obtain i where "i < uuid_count s" "t' = JStr (uuid_text i)"
      by blast
    then show ?thesis by (auto simp: uc intro: less_SucI)
  qed
  have 4: "\<exists>i<uuid_count s'. t' = JStr (uuid_text i)" if "t' \<in> set (minted (effects s'))" for t'
  proof (cases "t' = t")
    case True
    then show ?thesis by (auto simp: uc t_def)
  next
    case False
    with that have "t' \<in> set (minted (effects s))" by (simp add: eff minted_append)
    from tokens_ok_minted [OF ok this] obtain i where "i < uuid_count s" "t' = JStr (uuid_text i)"
      by blast
    then show ?thesis by (auto simp: uc intro: less_SucI)
  qed
  have 5: "distinct (minted (effects s'))"
    using tokens_ok_distinct [OF ok] fresh_not_minted [OF ok] by (simp add: eff minted_append t_def)
  from 1 2 3 4 5 show ?thesis unfolding s'_def [symmetric] tokens_ok_def by blast
qed

lemma idle_ok_handleLockRequest_same: "idle_ok (handleLockRequest k s) k"
  by (cases "locks s k") (auto simp: idle_ok_def handleLockRequest_def Let_def emit_def queue_of_def locks_get_def)

lemma idle_ok_handleLockRequest_other:
  "k' \<noteq> k \<Longrightarrow> idle_ok (handleLockRequest k s) k' = idle_ok s k'"
  by (simp add: idle_ok_def handleLockRequest_def Let_def emit_def queue_of_def)

lemma tokens_ok_lock_delete:
  "tokens_ok s \<Longrightarrow> t = locks_get s k \<Longrightarrow> tokens_ok (lock_delete k t s)"
proof -
  assume ok: "tokens_ok s" and t: "t = locks_get s k"
  define s' where "s' = lock_delete k t s"
  have eff: "effects s' = effects s @ [Released k t]"
    and lk: "locks s' = (locks s)(k := None)" and uc: "uuid_count s' = uuid_count s"
    by (simp_all add: s'_def lock_delete_def emit_def)
  have "outstanding k (effects s') = []"
    using t by (cases "locks s k")
      (simp_all add: eff outstanding_snoc tokens_ok_outstanding [OF ok] locks_get_def)
  then have 1: "outstanding k' (effects s') = (case locks s' k' of None \<Rightarrow> [] | Some t \<Rightarrow> [t])" for k'
    by (cases "k' = k") (simp_all add: eff lk outstanding_snoc tokens_ok_outstanding [OF ok])
  have 2: "grants_exclusive k' [] (effects s')" for k'
    by (simp add: eff grants_exclusive_append tokens_ok_exclusive [OF ok])
  have 3: "\<exists>i<uuid_count s'. t' = JStr (uuid_text i)" if "locks s' k' = Some t'" for k' t'
  proof -
    from that have "locks s k' = Some t'" by (cases "k' = k") (simp_all add: lk)
    from tokens_ok_holder [OF ok this] show ?thesis by (simp add: uc)
  qed
  have 4: "\<forall>t'\<in>set (minted (effects s')). \<exists>i<uuid_count s'. t' = JStr (uuid_text i)"
    using tokens_ok_minted [OF ok] by (simp add: eff minted_append uc)
  have 5: "distinct (minted (effects s'))"
    using tokens_ok_distinct [OF ok] by (simp add: eff minted_append)
  from 1 2 3 4 5 show ?thesis unfolding s'_def [symmetric] tokens_ok_def by blast
qed

lemma idle_ok_queue_other:
  "k' \<noteq> k \<Longrightarrow> idle_ok (s\<lparr>lockRequestQueues := (lockRequestQueues s)(k \<mapsto> q)\<rparr>) k' = idle_ok s k'"
  by (simp add: idle_ok_def queue_of_def)

lemma idle_ok_lock_delete_other: "k' \<noteq> k \<Longrightarrow> idle_ok (lock_delete k t s) k' = idle_ok s k'"
  by (simp add: idle_ok_def queue_of_def lock_delete_def emit_def)

lemma lock_inv_handleLockRequest: "lock_inv s \<Longrightarrow> lock_inv (handleLockRequest k s)"
proof -
  assume inv: "lock_inv s"
  have "idle_ok (handleLockRequest k s) k'" for k'
    using inv by (cases "k' = k")
      (simp_all add: idle_ok_handleLockRequest_same idle_ok_handleLockRequest_other lock_inv_def)
  with inv show ?thesis by (simp add: lock_inv_def tokens_ok_handleLockRequest)
qed

lemma lock_inv_enqueue:
  "lock_inv s \<Longrightarrow>
   lock_inv (handleLockRequest k (s\<lparr>lockRequestQueues := (lockRequestQueues s)(k \<mapsto> q)\<rparr>))"
proof -
  assume inv: "lock_inv s"
  let ?s1 = "s\<lparr>lockRequestQueues := (lockRequestQueues s)(k \<mapsto> q)\<rparr>"
  have "idle_ok (handleLockRequest k ?s1) k'" for k'
    using inv by (cases "k' = k")
      (simp_all add: idle_ok_handleLockRequest_same idle_ok_handleLockRequest_other
         idle_ok_queue_other lock_inv_def)
  with inv show ?thesis by (simp add: lock_inv_def tokens_ok_handleLockRequest)
qed

lemma lock_inv_release:
  "lock_inv s \<Longrightarrow> lock_inv (handleLockRequest k (lock_delete k (locks_get s k) s))"
proof -
  assume inv: "lock_inv s"
  let ?s1 = "lock_delete k (locks_get s k) s"
  from inv have "tokens_ok ?s1" by (simp add: lock_inv_def tokens_ok_lock_delete)
  then have t: "tokens_ok (handleLockRequest k ?s1)" by (rule tokens_ok_handleLockRequest)
  have "idle_ok (handleLockRequest k ?s1) k'" for k'
    using inv by (cases "k' = k")
      (simp_all add: idle_ok_handleLockRequest_same idle_ok_handleLockRequest_other
         idle_ok_lock_delete_other lock_inv_def)
  with t show ?thesis by (simp add: lock_inv_def)
qed

lemma lock_inv_emit: "\<not> lock_event e \<Longrightarrow> lock_inv (emit e s) = lock_inv s"
  by (rule lock_inv_view) simp

lemma getLock_pending [simp]: "fst (getLock k cb s) = Pending"
  by (simp add: getLock_def Let_def)

lemma lock_inv_getLock: "lock_inv s \<Longrightarrow> lock_inv (snd (getLock k cb s))"
  by (cases cb) (simp_all add: getLock_def Let_def lock_inv_enqueue)

lemma lock_inv_releaseLock: "lock_inv s \<Longrightarrow> lock_inv (snd (releaseLock k t cb s))"
proof -
  assume inv: "lock_inv s"
  have core: "lock_inv (if t = locks_get s' k then handleLockRequest k (lock_delete k t s') else s')"
    if "lock_inv s'" for s'
    using that lock_inv_release [of s' k] by simp
  show ?thesis
  proof (cases cb)
    case None
    with core [OF inv] show ?thesis by (auto simp: releaseLock_def split: if_splits)
  next
    case (Some c)
    let ?s1 = "if t = locks_get s k
               then emit (Called c OK) (handleLockRequest k (lock_delete k t s))
               else emit (Called c (failed t k)) s"
    from core [OF inv] have "lock_inv ?s1" by (auto simp: lock_inv_emit split: if_splits)
    from core [OF this] Some show ?thesis by (auto simp: releaseLock_def Let_def split: if_splits)
  qed
qed

lemma mutex_is_getLock [simp]: "mutex k f s = (Pending, snd (getLock k None s))"
  by (simp add: mutex_def getLock_def Let_def)

lemma line_view: "lock_view s' = lock_view s \<Longrightarrow> line_of k s' = line_of k s"
  using granted_of_view [of s' s k] queue_of_view [of s' s k] by (simp add: line_of_def)

lemma line_handleLockRequest [simp]: "line_of k' (handleLockRequest k s) = line_of k' s"
  by (cases "queue_of s k")
     (auto simp: line_of_def handleLockRequest_def Let_def emit_def granted_of_append queue_of_def)

lemma line_lock_delete [simp]: "line_of k' (lock_delete k t s) = line_of k' s"
  by (simp add: line_of_def lock_delete_def emit_def granted_of_append queue_of_def)

lemma line_emit [simp]: "\<not> lock_event e \<Longrightarrow> line_of k (emit e s) = line_of k s"
  by (rule line_view) simp

lemma line_push [simp]:
  "line_of k' (s\<lparr>lockRequestQueues := (lockRequestQueues s)(k \<mapsto> queue_of s k @ cs)\<rparr>) =
     line_of k' s @ (if k' = k then cs else [])"
  by (simp add: line_of_def queue_of_def)

lemma line_getLock: "line_of k' (snd (getLock k cb s)) = line_of k' s @ enqueued_of k' [GetLock k cb]"
proof (cases cb)
  case None
  have "line_of k' (s\<lparr>lockRequestQueues := (lockRequestQueues s)(k \<mapsto> queue_of s k @ [])\<rparr>) = line_of k' s"
    by (simp only: line_push) simp
  with None show ?thesis by (simp add: getLock_def Let_def)
next
  case (Some c)
  let ?s1 = "handleLockRequest k (s\<lparr>lockRequestQueues := (lockRequestQueues s)(k \<mapsto> queue_of s k @ [c])\<rparr>)"
  have "line_of k' (?s1\<lparr>lockRequestQueues := (lockRequestQueues ?s1)(k \<mapsto> queue_of ?s1 k @ [])\<rparr>) = line_of k' ?s1"
    by (simp only: line_push) simp
  with Some show ?thesis by (simp add: getLock_def Let_def)
qed

lemma line_releaseLock: "line_of k' (snd (releaseLock k t cb s)) = line_of k' s"
  by (cases cb) (simp_all add: releaseLock_def Let_def)

lemma lock_inv_silent: "lock_view s' = lock_view s \<Longrightarrow> lock_inv s \<Longrightarrow> lock_inv s'"
  by (simp add: lock_inv_view [of s' s])

lemma snd_call_member:
  "snd (call_member L m k v s) =
     (case m of
        M_set \<Rightarrow> snd (manager_set k v None s)
      | M_get \<Rightarrow> snd (manager_get k None s)
      | M_remove \<Rightarrow> snd (manager_remove k None s)
      | M_getLock \<Rightarrow> snd (getLock k None s)
      | M_releaseLock \<Rightarrow> snd (releaseLock k v None s)
      | M_mutex \<Rightarrow> snd (getLock k None s)
      | M_handleLockRequest \<Rightarrow> handleLockRequest k s
      | M_listen \<Rightarrow> s
      | M_removeListener \<Rightarrow> s
      | M_notifyListener \<Rightarrow> snd (notifyListener k s)
      | M_getLRU \<Rightarrow> snd (getLRU L k None s)
      | M_setLRU \<Rightarrow> snd (setLRU k v None s)
      | M_removeLRU \<Rightarrow> snd (removeLRU k None s)
      | M_setLRUOptions \<Rightarrow> setLRUOptions \<lparr>opt_max = None, opt_maxAge = None\<rparr> s
      | M_handle \<Rightarrow> s
      | M_logger \<Rightarrow> emit (Logged (LoggedArgs (if v = JUndefined then [JStr k] else [JStr k, v]))) s)"
  by (cases m) (simp_all add: listen_def split: prod.splits option.splits)

lemma lock_inv_call_member: "lock_inv s \<Longrightarrow> lock_inv (snd (call_member L m k v s))"
  unfolding snd_call_member
  by (cases m)
     (simp_all add: lock_inv_getLock lock_inv_releaseLock lock_inv_handleLockRequest
        lock_inv_silent)

lemma line_silent_ops [simp]:
  "line_of k' (snd (manager_set k v cb s)) = line_of k' s"
  "line_of k' (snd (manager_get k cb s)) = line_of k' s"
  "line_of k' (snd (manager_remove k cb s)) = line_of k' s"
  "line_of k' (snd (notifyListener k s)) = line_of k' s"
  "line_of k' (snd (getLRU L k cb s)) = line_of k' s"
  "line_of k' (snd (setLRU k v cb s)) = line_of k' s"
  "line_of k' (snd (removeLRU k cb s)) = line_of k' s"
  "line_of k' (setLRUOptions opts s) = line_of k' s"
  "line_of k' (snd (listen k l s)) = line_of k' s"
  "line_of k' (send target msg s) = line_of k' s"
  by (rule line_view, simp)+

lemma line_call_member: "line_of k' (snd (call_member L m k v s)) = line_of k' s"
  unfolding snd_call_member
  by (cases m) (simp_all add: line_getLock line_releaseLock)

lemma snd_handle:
  "snd (handle L data target s) = s' \<Longrightarrow>
     lock_view s' = lock_view s \<or>
     (\<exists>m v. lock_view s' = lock_view (snd (call_member L m (req_key data) v s)))"
  by (auto simp: handle_def Let_def
           split: if_splits option.splits prod.splits call_result.splits promise.splits)
     (metis snd_conv)+

lemma lock_inv_handle: "lock_inv s \<Longrightarrow> lock_inv (snd (handle L data target s))"
  using snd_handle [OF refl, of L data target s]
  by (auto intro: lock_inv_silent lock_inv_call_member)

lemma line_handle: "line_of k' (snd (handle L data target s)) = line_of k' s"
  using snd_handle [OF refl, of L data target s]
  by (auto simp: line_call_member dest: line_view [of _ _ k'])

lemma lock_inv_silent_ops [simp]:
  "lock_inv (snd (manager_set k v cb s)) = lock_inv s"
  "lock_inv (snd (manager_get k cb s)) = lock_inv s"
  "lock_inv (snd (manager_remove k cb s)) = lock_inv s"
  "lock_inv (snd (getLRU L k cb s)) = lock_inv s"
  "lock_inv (snd (setLRU k v cb s)) = lock_inv s"
  "lock_inv (snd (removeLRU k cb s)) = lock_inv s"
  "lock_inv (setLRUOptions opts s) = lock_inv s"
  "lock_inv (snd (listen k l s)) = lock_inv s"
  "lock_inv (s\<lparr>workers := w\<rparr>) = lock_inv s"
  by (rule lock_inv_view, simp)+

lemma line_workers [simp]: "line_of k (s\<lparr>workers := w\<rparr>) = line_of k s"
  by (rule line_view) simp

lemma lock_inv_exec: "lock_inv s \<Longrightarrow> lock_inv (exec L c s)"
  by (cases c)
     (simp_all add: lock_inv_getLock lock_inv_releaseLock lock_inv_handleLockRequest
        lock_inv_handle on_message_def)

lemma line_exec: "line_of k (exec L c s) = line_of k s @ enqueued_of k [c]"
proof (cases c)
  case (GetLock k' cb)
  then show ?thesis by (simp add: line_getLock)
qed (simp_all add: line_releaseLock line_handle line_getLock on_message_def)

lemma enqueued_of_Cons: "enqueued_of k (c # cs) = enqueued_of k [c] @ enqueued_of k cs"
proof (cases c)
  case (GetLock k' cb)
  then show ?thesis by (cases cb) simp_all
qed simp_all

lemma lock_inv_run: "lock_inv s \<Longrightarrow> lock_inv (run L cs s)"
  by (induction cs arbitrary: s) (simp_all add: lock_inv_exec)

lemma line_run: "line_of k (run L cs s) = line_of k s @ enqueued_of k cs"
proof (induction cs arbitrary: s)
  case Nil
  then show ?case by simp
next
  case (Cons c cs)
  show ?case by (simp add: Cons.IH line_exec) (simp add: enqueued_of_Cons [of k c cs])
qed

lemma lock_inv_minit: "lock_inv minit"
  by (simp add: lock_inv_def tokens_ok_def idle_ok_def minit_def outstanding_def queue_of_def)

lemma line_minit: "line_of k minit = []"
  by (simp add: line_of_def minit_def queue_of_def)

lemma lock_inv_reachable: "lock_inv (run L cs minit)"
  by (rule lock_inv_run) (rule lock_inv_minit)

lemma held_no_grant: "tokens_ok s \<Longrightarrow> locks s k \<noteq> None \<Longrightarrow> handleLockRequest k s = s"
  using held_truthy [of s k] by (auto simp: handleLockRequest_def)

section \<open>Releasing a lock\<close>

lemma release_empty:
  "queue_of s k = [] \<Longrightarrow> handleLockRequest k (lock_delete k t s) = lock_delete k t s"
  by (simp add: handleLockRequest_def lock_delete_def emit_def queue_of_def)

lemma release_next:
  "queue_of s k = c # rest \<Longrightarrow>
   handleLockRequest k (lock_delete k t s) =
     emit (Granted k c (JStr (uuid_text (uuid_count s))))
       (emit (Released k t)
          (s\<lparr>lockRequestQueues := (lockRequestQueues s)(k \<mapsto> rest),
             uuid_count := Suc (uuid_count s),
             locks := (locks s)(k \<mapsto> JStr (uuid_text (uuid_count s)))\<rparr>))"
  by (simp add: handleLockRequest_def lock_delete_def emit_def queue_of_def locks_get_def Let_def)

lemma releaseLock_holder:
  assumes ok: "tokens_ok s" and held: "locks s k = Some t"
  shows "snd (releaseLock k t cb s) =
           (case cb of
              None \<Rightarrow> handleLockRequest k (lock_delete k t s)
            | Some c \<Rightarrow> emit (Called c OK) (handleLockRequest k (lock_delete k t s)))"
proof (cases cb)
  case None
  with held show ?thesis by (simp add: releaseLock_def locks_get_def)
next
  case (Some c0)
  from tokens_ok_holder [OF ok held] obtain i where i: "i < uuid_count s" "t = JStr (uuid_text i)"
    by blast
  let ?x = "handleLockRequest k (lock_delete k t s)"
  have "locks_get (emit (Called c0 OK) ?x) k \<noteq> t"
  proof (cases "queue_of s k")
    case Nil
    then show ?thesis
      using i by (simp add: release_empty) (simp add: lock_delete_def emit_def locks_get_def)
  next
    case (Cons c rest)
    then show ?thesis
      using i by (simp add: release_next emit_def locks_get_def uuid_text_inj)
  qed
  with Some held show ?thesis by (simp add: releaseLock_def locks_get_def Let_def)
qed

lemma releaseLock_mismatch:
  "lockId \<noteq> locks_get s k \<Longrightarrow>
   releaseLock k lockId cb s =
     (Resolved (failed lockId k),
      case cb of None \<Rightarrow> s | Some c \<Rightarrow> emit (Called c (failed lockId k)) s)"
  by (cases cb) (simp_all add: releaseLock_def emit_def locks_get_def Let_def)

lemma tokens_ok_silent: "lock_view s' = lock_view s \<Longrightarrow> tokens_ok s \<Longrightarrow> tokens_ok s'"
  by (simp add: tokens_ok_view [of s' s])

lemma release_by_holder:
  assumes ok: "tokens_ok s" and held: "locks s k = Some t"
  shows "fst (releaseLock k t None s) = Resolved OK"
    and "locks (snd (releaseLock k t cb s)) k \<noteq> Some t"
    and "effects (snd (releaseLock k t cb s)) =
           effects s @ Released k t #
             (case queue_of s k of [] \<Rightarrow> [] | c # rest \<Rightarrow> [Granted k c (JStr (uuid_text (uuid_count s)))]) @
             (case cb of None \<Rightarrow> [] | Some c0 \<Rightarrow> [Called c0 OK])"
proof -
  from held show "fst (releaseLock k t None s) = Resolved OK"
    by (simp add: releaseLock_def locks_get_def)
  from tokens_ok_holder [OF ok held] obtain i where i: "i < uuid_count s" "t = JStr (uuid_text i)"
    by blast
  then have neq: "JStr (uuid_text (uuid_count s)) \<noteq> t" by (simp add: uuid_text_inj)
  note rel = releaseLock_holder [OF ok held]
  show "locks (snd (releaseLock k t cb s)) k \<noteq> Some t"
  proof (cases "queue_of s k")
    case Nil
    have "snd (releaseLock k t cb s) =
            (case cb of None \<Rightarrow> lock_delete k t s
             | Some c0 \<Rightarrow> emit (Called c0 OK) (lock_delete k t s))"
      by (cases cb) (simp_all add: rel release_empty [OF Nil])
    then show ?thesis
      by (cases cb) (simp_all add: lock_delete_def emit_def)
  next
    case (Cons c rest)
    with neq show ?thesis
      by (cases cb) (simp_all add: rel release_next [OF Cons] emit_def)
  qed
  show "effects (snd (releaseLock k t cb s)) =
           effects s @ Released k t #
             (case queue_of s k of [] \<Rightarrow> [] | c # rest \<Rightarrow> [Granted k c (JStr (uuid_text (uuid_count s)))]) @
             (case cb of None \<Rightarrow> [] | Some c0 \<Rightarrow> [Called c0 OK])"
  proof (cases "queue_of s k")
    case Nil
    have "snd (releaseLock k t cb s) =
            (case cb of None \<Rightarrow> lock_delete k t s
             | Some c0 \<Rightarrow> emit (Called c0 OK) (lock_delete k t s))"
      by (cases cb) (simp_all add: rel release_empty [OF Nil])
    then show ?thesis
      by (cases cb) (simp_all add: Nil lock_delete_def emit_def)
  next
    case (Cons c rest)
    show ?thesis
      by (cases cb) (simp_all add: rel release_next [OF Cons] Cons emit_def)
  qed
qed

section \<open>The store and its listeners\<close>

lemma inherited_names:
  "inherited ''__proto__''" "inherited ''toString''" "inherited ''constructor''"
  "\<not> inherited []"
  by (simp_all add: inherited_def member_length_def object_prototype_functions_def)

lemma emit_fields [simp]:
  "memory (emit e s) = memory s"
  "memory_bare (emit e s) = memory_bare s"
  "listeners (emit e s) = listeners s"
  "workers (emit e s) = workers s"
  "effects (emit e s) = effects s @ [e]"
  by (simp_all add: emit_def)

lemma listeners_of_emit [simp]: "listeners_of (emit e s) k = listeners_of s k"
  by (simp add: listeners_of_def)

lemma sm_get_emit [simp]: "sm_get (emit e s) k = sm_get s k"
  by (simp add: sm_get_def split: option.splits)

lemma store_call_listener [simp]:
  "memory (call_listener l v s) = memory s"
  "memory_bare (call_listener l v s) = memory_bare s"
  by (cases l; simp add: send_def removeListener_def)+

lemma store_notify_indices [simp]:
  "memory (notify_indices k is s) = memory s"
  "memory_bare (notify_indices k is s) = memory_bare s"
  by (induction "is" arbitrary: s; simp)+

lemma store_notifyListener [simp]:
  "memory (snd (notifyListener k s)) = memory s"
  "memory_bare (snd (notifyListener k s)) = memory_bare s"
  by (simp_all add: notifyListener_def split: option.splits)







lemma live_emit [simp]: "live (emit e s) l = live s l"
  by (cases l) simp_all







lemma effects_update_fields [simp]:
  "listeners_of (s\<lparr>effects := es\<rparr>) k = listeners_of s k"
  "live (s\<lparr>effects := es\<rparr>) l = live s l"
  by (cases l; simp add: listeners_of_def)+



section \<open>Dispatch\<close>

lemma member_of_listen: "member_of ''listen'' = Some M_listen"
  by (simp add: member_of_def)




lemma member_of_getLock: "member_of ''getLock'' = Some M_getLock"
  by (simp add: member_of_def)





section \<open>Evaluating the token text\<close>

lemma uuid_text_0: "uuid_text 0 = ''uuid-0''"
  by code_simp

lemma uuid_text_1: "uuid_text (Suc 0) = ''uuid-1''"
  by code_simp

section \<open>The claims\<close>

text \<open>
  C1. The claim: a \<^verbatim>\<open>getLock\<close> without callback puts the caller's continuation on the
  queue of the key and, when the key is unlocked and the queue was empty, is granted at
  once with a new token that becomes the holder and resolves the returned promise.
  The code at \<^verbatim>\<open>getLock('x')\<close> on a new coordinator: the promise branch reads the
  property \<^verbatim>\<open>pushresolve\<close> of the queue instead of calling \<^verbatim>\<open>push(resolve)\<close>, so
  the queue of \<^verbatim>\<open>x\<close> is created and stays empty, no token is made, \<^verbatim>\<open>x\<close> gets no
  holder, no callback runs and the promise stays pending. The branch with a callback,
  a few lines above, does push.
\<close>

theorem C1_getLock_promise_never_queued:
  "fst (getLock ''x'' None minit) = Pending \<and>
   lockRequestQueues (snd (getLock ''x'' None minit)) ''x'' = Some [] \<and>
   locks (snd (getLock ''x'' None minit)) ''x'' = None \<and>
   uuid_count (snd (getLock ''x'' None minit)) = 0 \<and>
   effects (snd (getLock ''x'' None minit)) = []"
  by (simp add: getLock_def handleLockRequest_def minit_def queue_of_def locks_get_def Let_def)

text \<open>
  C2. In the state after any sequence of calls from the constructor's state (calls of
  \<^verbatim>\<open>getLock\<close>, \<^verbatim>\<open>releaseLock\<close> and \<^verbatim>\<open>handleLockRequest\<close>, and every other call
  of the interface or message of a worker between them), for every key \<open>k\<close>: at most
  one token of \<open>k\<close> is outstanding, and it is the recorded holder; every grant so far
  happened while no token of \<open>k\<close> was outstanding; no token was given twice; and while
  \<open>k\<close> has a recorded holder \<^verbatim>\<open>handleLockRequest(k)\<close> grants nothing.
\<close>

theorem C2_mutual_exclusion:
  "length (outstanding k (effects (run L cs minit))) \<le> 1 \<and>
   outstanding k (effects (run L cs minit)) =
     (case locks (run L cs minit) k of None \<Rightarrow> [] | Some t \<Rightarrow> [t]) \<and>
   grants_exclusive k [] (effects (run L cs minit)) \<and>
   distinct (minted (effects (run L cs minit))) \<and>
   (locks (run L cs minit) k \<noteq> None \<longrightarrow>
      handleLockRequest k (run L cs minit) = run L cs minit)"
proof -
  have inv: "lock_inv (run L cs minit)" by (rule lock_inv_reachable)
  then have ok: "tokens_ok (run L cs minit)" by (simp add: lock_inv_def)
  have out: "outstanding k (effects (run L cs minit)) =
     (case locks (run L cs minit) k of None \<Rightarrow> [] | Some t \<Rightarrow> [t])"
    by (rule tokens_ok_outstanding [OF ok])
  then have "length (outstanding k (effects (run L cs minit))) \<le> 1"
    by (cases "locks (run L cs minit) k") simp_all
  with out tokens_ok_exclusive [OF ok] tokens_ok_distinct [OF ok] held_no_grant [OF ok]
  show ?thesis by blast
qed

theorem C2_mutual_exclusion_witness:
  "locks (run lru_miss [GetLock ''x'' (Some 1), GetLock ''x'' (Some 2)] minit) ''x''
     = Some (JStr ''uuid-0'') \<and>
   effects (run lru_miss [GetLock ''x'' (Some 1), GetLock ''x'' (Some 2)] minit)
     = [Granted ''x'' 1 (JStr ''uuid-0'')] \<and>
   outstanding ''x'' (effects (run lru_miss [GetLock ''x'' (Some 1), GetLock ''x'' (Some 2)] minit))
     = [JStr ''uuid-0''] \<and>
   grants_exclusive ''x'' []
     (effects (run lru_miss [GetLock ''x'' (Some 1), GetLock ''x'' (Some 2)] minit)) \<and>
   handleLockRequest ''x'' (run lru_miss [GetLock ''x'' (Some 1), GetLock ''x'' (Some 2)] minit)
     = run lru_miss [GetLock ''x'' (Some 1), GetLock ''x'' (Some 2)] minit"
proof -
  have l: "locks (run lru_miss [GetLock ''x'' (Some 1), GetLock ''x'' (Some 2)] minit) ''x''
     = Some (JStr ''uuid-0'')"
    by (simp add: getLock_def handleLockRequest_def minit_def queue_of_def locks_get_def
          Let_def emit_def uuid_text_0)
  have e: "effects (run lru_miss [GetLock ''x'' (Some 1), GetLock ''x'' (Some 2)] minit)
     = [Granted ''x'' 1 (JStr ''uuid-0'')]"
    by (simp add: getLock_def handleLockRequest_def minit_def queue_of_def locks_get_def
          Let_def emit_def uuid_text_0)
  show ?thesis
    using C2_mutual_exclusion [of "''x''" lru_miss "[GetLock ''x'' (Some 1), GetLock ''x'' (Some 2)]"]
    unfolding l e by simp
qed

text \<open>
  C3. In the state after any sequence of calls, when \<^verbatim>\<open>releaseLock(k, t)\<close> is called
  with the recorded holder \<open>t\<close> of \<open>k\<close>, with or without callback: if nobody waits,
  \<open>k\<close> is left without holder; if the queue is \<open>c # rest\<close>, the same call releases
  \<open>t\<close> and grants the head \<open>c\<close> a token that differs from \<open>t\<close> and from every
  token given before, and leaves \<open>rest\<close> waiting. Nobody is skipped: the callbacks
  granted so far followed by those still waiting are exactly the callbacks that
  \<^verbatim>\<open>getLock\<close> enqueued for \<open>k\<close>, in the order of their calls, so the granted ones
  are a prefix of the enqueued ones.
\<close>

theorem C3_release_grants_head_fifo:
  assumes held: "locks (run L cs minit) k = Some t"
  shows "(let s = run L cs minit; s' = snd (releaseLock k t cb s) in
          (queue_of s k = [] \<longrightarrow>
             locks s' k = None \<and> queue_of s' k = [] \<and>
             granted_of k (effects s') = granted_of k (effects s)) \<and>
          (\<forall>c rest. queue_of s k = c # rest \<longrightarrow>
             (\<exists>t'. locks s' k = Some t' \<and> t' \<noteq> t \<and> t' \<notin> set (minted (effects s)) \<and>
                   queue_of s' k = rest \<and>
                   effects s' = effects s @ [Released k t, Granted k c t'] @
                     (case cb of None \<Rightarrow> [] | Some c0 \<Rightarrow> [Called c0 OK]))) \<and>
          granted_of k (effects s) @ queue_of s k = enqueued_of k cs \<and>
          prefix (granted_of k (effects s)) (enqueued_of k cs))"
proof -
  let ?s = "run L cs minit"
  have inv: "lock_inv ?s" by (rule lock_inv_reachable)
  then have ok: "tokens_ok ?s" by (simp add: lock_inv_def)
  note rel = releaseLock_holder [OF ok held]
  have a: "locks (snd (releaseLock k t cb ?s)) k = None \<and>
           queue_of (snd (releaseLock k t cb ?s)) k = [] \<and>
           granted_of k (effects (snd (releaseLock k t cb ?s))) = granted_of k (effects ?s)"
    if q: "queue_of ?s k = []"
  proof -
    have "snd (releaseLock k t cb ?s) =
            (case cb of None \<Rightarrow> lock_delete k t ?s
             | Some c0 \<Rightarrow> emit (Called c0 OK) (lock_delete k t ?s))"
      by (cases cb) (simp_all add: rel release_empty [OF q])
    with q show ?thesis
      by (cases cb) (simp_all add: lock_delete_def emit_def queue_of_def granted_of_append)
  qed
  have b: "\<exists>t'. locks (snd (releaseLock k t cb ?s)) k = Some t' \<and>
                  t' \<noteq> t \<and> t' \<notin> set (minted (effects ?s)) \<and>
                  queue_of (snd (releaseLock k t cb ?s)) k = rest \<and>
                  effects (snd (releaseLock k t cb ?s)) =
                    effects ?s @ [Released k t, Granted k c t'] @
                    (case cb of None \<Rightarrow> [] | Some c0 \<Rightarrow> [Called c0 OK])"
    if q: "queue_of ?s k = c # rest" for c rest
  proof -
    from tokens_ok_holder [OF ok held] obtain i where i: "i < uuid_count ?s" "t = JStr (uuid_text i)"
      by blast
    then have neq: "JStr (uuid_text (uuid_count ?s)) \<noteq> t" by (simp add: uuid_text_inj)
    have "snd (releaseLock k t cb ?s) =
            (case cb of None \<Rightarrow> handleLockRequest k (lock_delete k t ?s)
             | Some c0 \<Rightarrow> emit (Called c0 OK) (handleLockRequest k (lock_delete k t ?s)))"
      by (simp add: rel)
    then have "locks (snd (releaseLock k t cb ?s)) k = Some (JStr (uuid_text (uuid_count ?s))) \<and>
        queue_of (snd (releaseLock k t cb ?s)) k = rest \<and>
        effects (snd (releaseLock k t cb ?s)) =
          effects ?s @ [Released k t, Granted k c (JStr (uuid_text (uuid_count ?s)))] @
          (case cb of None \<Rightarrow> [] | Some c0 \<Rightarrow> [Called c0 OK])"
      by (cases cb) (simp_all add: release_next [OF q] emit_def queue_of_def)
    with neq fresh_not_minted [OF ok] show ?thesis by blast
  qed
  have c: "granted_of k (effects ?s) @ queue_of ?s k = enqueued_of k cs"
    using line_run [of k L cs minit] by (simp add: line_of_def line_minit [unfolded line_of_def])
  then have d: "prefix (granted_of k (effects ?s)) (enqueued_of k cs)"
    by (metis prefixI)
  from a b c d show ?thesis unfolding Let_def by blast
qed

theorem C3_release_grants_head_fifo_witness:
  "locks (run lru_miss [GetLock ''x'' (Some 1), GetLock ''x'' (Some 2), GetLock ''x'' (Some 3)] minit) ''x''
     = Some (JStr ''uuid-0'') \<and>
   queue_of (run lru_miss [GetLock ''x'' (Some 1), GetLock ''x'' (Some 2), GetLock ''x'' (Some 3)] minit) ''x''
     = [2, 3] \<and>
   locks (snd (releaseLock ''x'' (JStr ''uuid-0'') None
     (run lru_miss [GetLock ''x'' (Some 1), GetLock ''x'' (Some 2), GetLock ''x'' (Some 3)] minit))) ''x''
     = Some (JStr ''uuid-1'') \<and>
   queue_of (snd (releaseLock ''x'' (JStr ''uuid-0'') None
     (run lru_miss [GetLock ''x'' (Some 1), GetLock ''x'' (Some 2), GetLock ''x'' (Some 3)] minit))) ''x''
     = [3] \<and>
   effects (snd (releaseLock ''x'' (JStr ''uuid-0'') None
     (run lru_miss [GetLock ''x'' (Some 1), GetLock ''x'' (Some 2), GetLock ''x'' (Some 3)] minit)))
     = [Granted ''x'' 1 (JStr ''uuid-0''), Released ''x'' (JStr ''uuid-0''),
        Granted ''x'' 2 (JStr ''uuid-1'')] \<and>
   prefix [1] (enqueued_of ''x'' [GetLock ''x'' (Some 1), GetLock ''x'' (Some 2), GetLock ''x'' (Some 3)])"
  using C3_release_grants_head_fifo [of lru_miss
      "[GetLock ''x'' (Some 1), GetLock ''x'' (Some 2), GetLock ''x'' (Some 3)]"
      "''x''" "JStr ''uuid-0''" None]
  by (simp add: getLock_def releaseLock_def handleLockRequest_def lock_delete_def minit_def
        queue_of_def locks_get_def Let_def emit_def uuid_text_0 uuid_text_1)

text \<open>
  C4. In the state after any sequence of calls, \<^verbatim>\<open>releaseLock(k, lockId)\<close> with a
  \<open>lockId\<close> that is not the recorded holder of \<open>k\<close> resolves with the failure
  message and changes neither the lock table nor any queue (with a callback, the only
  change of the state is that the callback was called with the message). If \<open>k\<close> has
  a holder \<open>t\<close>, a following \<^verbatim>\<open>releaseLock(k, t)\<close> releases \<open>t\<close> and reports
  \<^verbatim>\<open>'OK'\<close>: through the promise when it has no callback, to the callback otherwise.
  The recorded holder of \<open>k\<close> is what \<^verbatim>\<open>locks[k]\<close> reads, which is \<^verbatim>\<open>undefined\<close>
  for a key without holder.
\<close>

theorem C4_wrong_token_conflict:
  assumes wrong: "lockId \<noteq> locks_get (run L cs minit) k"
  shows "(let s = run L cs minit; s' = snd (releaseLock k lockId cb s) in
          fst (releaseLock k lockId cb s) = Resolved (failed lockId k) \<and>
          locks s' = locks s \<and>
          lockRequestQueues s' = lockRequestQueues s \<and>
          s' = (case cb of None \<Rightarrow> s | Some c \<Rightarrow> emit (Called c (failed lockId k)) s) \<and>
          (\<forall>t. locks s k = Some t \<longrightarrow>
             fst (releaseLock k t None s') = Resolved OK \<and>
             (\<forall>cb'. locks (snd (releaseLock k t cb' s')) k \<noteq> Some t \<and>
                Released k t \<in> set (drop (length (effects s')) (effects (snd (releaseLock k t cb' s')))) \<and>
                (\<forall>c'. cb' = Some c' \<longrightarrow>
                   Called c' OK \<in> set (drop (length (effects s'))
                                          (effects (snd (releaseLock k t cb' s'))))))))"
proof -
  let ?s = "run L cs minit"
  let ?s' = "snd (releaseLock k lockId cb ?s)"
  have inv: "lock_inv ?s" by (rule lock_inv_reachable)
  then have ok: "tokens_ok ?s" by (simp add: lock_inv_def)
  note mis = releaseLock_mismatch [OF wrong, of cb]
  have s': "?s' = (case cb of None \<Rightarrow> ?s | Some c \<Rightarrow> emit (Called c (failed lockId k)) ?s)"
    by (simp add: mis)
  have view: "lock_view ?s' = lock_view ?s" unfolding s' by (cases cb) simp_all
  then have same: "locks ?s' = locks ?s" "lockRequestQueues ?s' = lockRequestQueues ?s"
    by (simp_all add: lock_view_def)
  have ok': "tokens_ok ?s'" by (rule tokens_ok_silent [OF view ok])
  have later: "fst (releaseLock k t None ?s') = Resolved OK \<and>
      (\<forall>cb'. locks (snd (releaseLock k t cb' ?s')) k \<noteq> Some t \<and>
         Released k t \<in> set (drop (length (effects ?s')) (effects (snd (releaseLock k t cb' ?s')))) \<and>
         (\<forall>c'. cb' = Some c' \<longrightarrow>
            Called c' OK \<in> set (drop (length (effects ?s')) (effects (snd (releaseLock k t cb' ?s'))))))"
    if "locks ?s k = Some t" for t
  proof -
    from that same have held: "locks ?s' k = Some t" by simp
    note r = release_by_holder [OF ok' held]
    show ?thesis by (auto simp: r)
  qed
  from mis same s' later show ?thesis unfolding Let_def by simp
qed

theorem C4_wrong_token_conflict_witness:
  "JStr ''wrong'' \<noteq> locks_get (run lru_miss [GetLock ''x'' (Some 1)] minit) ''x'' \<and>
   locks (run lru_miss [GetLock ''x'' (Some 1)] minit) ''x'' = Some (JStr ''uuid-0'') \<and>
   fst (releaseLock ''x'' (JStr ''wrong'') None (run lru_miss [GetLock ''x'' (Some 1)] minit))
     = Resolved (JStr ''Failed. LockId:wrong does not match x's lockId.'') \<and>
   locks (snd (releaseLock ''x'' (JStr ''wrong'') None (run lru_miss [GetLock ''x'' (Some 1)] minit))) ''x''
     = Some (JStr ''uuid-0'') \<and>
   fst (releaseLock ''x'' (JStr ''uuid-0'') None
          (snd (releaseLock ''x'' (JStr ''wrong'') None (run lru_miss [GetLock ''x'' (Some 1)] minit))))
     = Resolved OK"
  using C4_wrong_token_conflict [of "JStr ''wrong''" lru_miss "[GetLock ''x'' (Some 1)]" "''x''" None]
  by (simp add: getLock_def releaseLock_def handleLockRequest_def lock_delete_def minit_def
        queue_of_def locks_get_def Let_def emit_def uuid_text_0 failed_def)

text \<open>
  C5. The claim: \<^verbatim>\<open>mutex(k, f)\<close> acquires the lock of \<open>k\<close>, runs \<open>f\<close> and releases
  the lock with the acquired token, also when \<open>f\<close> raises. The code at
  \<^verbatim>\<open>mutex('counter', f)\<close> on a new coordinator: \<^verbatim>\<open>await this.getLock(k)\<close> waits for
  a promise that nothing resolves, because the promise branch of \<^verbatim>\<open>getLock\<close> puts no
  continuation on the queue. So \<open>f\<close> never runs, whether it would return or throw: the
  promise of \<^verbatim>\<open>mutex\<close> stays pending, no token is minted and nothing is released. The
  same from a worker: its \<^verbatim>\<open>mutex\<close> sends one \<^verbatim>\<open>getLock\<close> request, and the
  coordinator handles that request without granting anything and without a reply, so
  the worker's \<open>f\<close> never runs either.
\<close>

theorem C5_mutex_never_runs_action:
  "fst (mutex ''counter'' (Returns (JNum 1)) minit) = Pending \<and>
   fst (mutex ''counter'' (Throws (JStr ''boom'')) minit) = Pending \<and>
   effects (snd (mutex ''counter'' (Throws (JStr ''boom'')) minit)) = [] \<and>
   locks (snd (mutex ''counter'' (Throws (JStr ''boom'')) minit)) ''counter'' = None \<and>
   queue_of (snd (mutex ''counter'' (Throws (JStr ''boom'')) minit)) ''counter'' = [] \<and>
   w_effects (snd (worker_mutex ''counter'' (Throws (JStr ''boom'')) (winit 1)))
     = [WSent \<lparr>isSharedMemoryMessage = True, req_id = 1, req_method = ''getLock'',
               req_uuid = ''uuid-0'', req_key = ''counter'', req_value = JNull\<rparr>] \<and>
   fst (handle lru_miss
          \<lparr>isSharedMemoryMessage = True, req_id = 1, req_method = ''getLock'',
           req_uuid = ''uuid-0'', req_key = ''counter'', req_value = JNull\<rparr> 1
          (exec lru_miss (WorkerStatus 1 Connected) minit)) = None \<and>
   effects (snd (handle lru_miss
          \<lparr>isSharedMemoryMessage = True, req_id = 1, req_method = ''getLock'',
           req_uuid = ''uuid-0'', req_key = ''counter'', req_value = JNull\<rparr> 1
          (exec lru_miss (WorkerStatus 1 Connected) minit))) = [] \<and>
   locks (snd (handle lru_miss
          \<lparr>isSharedMemoryMessage = True, req_id = 1, req_method = ''getLock'',
           req_uuid = ''uuid-0'', req_key = ''counter'', req_value = JNull\<rparr> 1
          (exec lru_miss (WorkerStatus 1 Connected) minit))) ''counter'' = None"
  by (simp add: mutex_def getLock_def handleLockRequest_def queue_of_def locks_get_def
        minit_def Let_def handle_def member_of_getLock worker_mutex_def worker_getLock_def
        worker_call_def worker_handle_def wemit_def winit_def uuid_text_0)

text \<open>
  C6, where it fails. A connected worker sends a request whose method is
  \<^verbatim>\<open>'frobnicate'\<close>. \<^verbatim>\<open>this['frobnicate']\<close> is \<^verbatim>\<open>undefined\<close> and calling it raises
  a \<^verbatim>\<open>TypeError\<close> out of \<^verbatim>\<open>handle\<close>, whose caller is the message listener; nothing
  is logged.
\<close>

theorem C6_unknown_method_counterexample:
  "member_of ''frobnicate'' = None \<and>
   fst (handle lru_miss
          \<lparr>isSharedMemoryMessage = True, req_id = 1, req_method = ''frobnicate'',
           req_uuid = ''w1-0'', req_key = ''k'', req_value = JNum 1\<rparr> 1
          (exec lru_miss (WorkerStatus 1 Connected) minit)) = Some TypeError \<and>
   effects (snd (handle lru_miss
          \<lparr>isSharedMemoryMessage = True, req_id = 1, req_method = ''frobnicate'',
           req_uuid = ''w1-0'', req_key = ''k'', req_value = JNum 1\<rparr> 1
          (exec lru_miss (WorkerStatus 1 Connected) minit))) = []"
  by (simp add: handle_def member_of_def minit_def)

text \<open>
  C6, as the code has it. For every request whose method names none of the
  coordinator's methods, \<^verbatim>\<open>handle\<close> raises a \<^verbatim>\<open>TypeError\<close> to the message
  listener, sends no reply, logs nothing and leaves the whole state (store, lock table,
  queues, listeners, cache) as it was.
\<close>

theorem C6_unknown_method_raises:
  assumes "member_of (req_method data) = None"
  shows "handle L data target s = (Some TypeError, s) \<and>
         on_message L data target s =
           (if isSharedMemoryMessage data then (Some TypeError, s) else (None, s))"
proof -
  from assms have "req_method data \<noteq> ''listen''" by (auto simp: member_of_listen)
  with assms show ?thesis by (simp add: handle_def on_message_def)
qed

theorem C6_unknown_method_raises_witness:
  "member_of ''frobnicate'' = None \<and>
   handle lru_miss
     \<lparr>isSharedMemoryMessage = True, req_id = 1, req_method = ''frobnicate'',
      req_uuid = ''w1-0'', req_key = ''k'', req_value = JNum 1\<rparr> 1 minit
     = (Some TypeError, minit)"
  using C6_unknown_method_raises [of
      "\<lparr>isSharedMemoryMessage = True, req_id = 1, req_method = ''frobnicate'',
        req_uuid = ''w1-0'', req_key = ''k'', req_value = JNum 1\<rparr>" lru_miss 1 minit]
  by (simp add: member_of_def)

text \<open>
  C7. The claim: a subscriber of \<open>k\<close> gets exactly one notification, with the new
  value, for each write or delete of \<open>k\<close>, and so sees the written values in order
  without duplicates. The code at \<^verbatim>\<open>listen('status', l)\<close> followed by
  \<^verbatim>\<open>set('status', 'up', cb)\<close> in the coordinator's process: the branch for a callback
  stores, notifies and calls \<^verbatim>\<open>cb\<close>, and without a \<^verbatim>\<open>return\<close> the promise
  branch stores and notifies again, so \<open>l\<close> is called twice with \<^verbatim>\<open>'up'\<close> for one
  write. The same write without callback notifies once.
\<close>

theorem C7_callback_write_notifies_twice:
  "listeners_of (snd (listen ''status'' (Some (Local 7)) minit)) ''status'' = [Local 7] \<and>
   effects (snd (manager_set ''status'' (JStr ''up'') (Some 9)
                  (snd (listen ''status'' (Some (Local 7)) minit))))
     = [Stored ''status'' (JStr ''up''), Notified 7 (JStr ''up''), Called 9 OK,
        Stored ''status'' (JStr ''up''), Notified 7 (JStr ''up'')] \<and>
   effects (snd (manager_set ''status'' (JStr ''up'') None
                  (snd (listen ''status'' (Some (Local 7)) minit))))
     = [Stored ''status'' (JStr ''up''), Notified 7 (JStr ''up'')]"
  by (simp add: manager_set_def write_notify_def in_promise_def listen_def listeners_of_def
        minit_def notifyListener_def inherited_def member_length_def
        object_prototype_functions_def sm_set_def sm_get_def emit_def upt_rec)










end
